theory Spec2Isabelle
  imports Complex_Main "HOL-Library.Word"
begin

section \<open>Occupancy-grid mapping: a shallow embedding of advanced\_mapping.py\<close>

text \<open>
  The mapper of \<^verbatim>\<open>src/software/advanced_mapping.py\<close> is embedded function by
  function. Python's unbounded integers are \<^typ>\<open>int\<close>; the cells of the
  \<^verbatim>\<open>np.int8\<close> occupancy array are 8-bit words; a Python exception is the
  \<open>Inl\<close> branch of a sum; the \<^verbatim>\<open>while\<close> loop of the ray caster is a
  partial function whose termination is proved, not assumed. A Python float is
  represented by the real number it denotes. In \<^verbatim>\<open>interpolate_scan\<close> the
  interpolated distances are computed over the reals. In
  \<^verbatim>\<open>polar_to_cartesian\<close>, where the rounding of the float operations decides
  the cell, these operations are a parameter of the model, so that what is proved
  holds for whatever they compute. The \<^verbatim>\<open>print\<close> calls have no effect on the
  state and are left out.
\<close>

subsection \<open>Configuration and data\<close>

datatype error = IndexError | ZeroDivisionError | ValueError | FileNotFoundError

definition MAP_SIZE :: int where
  "MAP_SIZE = 100"

definition MAX_DISTANCE :: real where
  "MAX_DISTANCE = 100"

definition OBSTACLE_THRESHOLD :: real where
  "OBSTACLE_THRESHOLD = 80"

type_synonym int8 = "8 word"

definition UNKNOWN :: int8 where
  "UNKNOWN = - 1"

definition FREE :: int8 where
  "FREE = 0"

definition OCCUPIED :: int8 where
  "OCCUPIED = 1"

text \<open>The occupancy array is a list of rows: \<^verbatim>\<open>occupancy_map[y, x]\<close> is column
  \<open>x\<close> of row \<open>y\<close>.\<close>

type_synonym grid = "int8 list list"

type_synonym sample = "int \<times> real"

record mapper =
  map_size :: int
  occupancy_map :: grid
  car_x :: int
  car_y :: int
  car_angle :: real
  scan_history :: "sample list"

subsection \<open>interpolate\_scan\<close>

text \<open>The inner loop \<^verbatim>\<open>for j in range(1, num_points)\<close> appends one point for each
  \<open>j\<close> from 1 to \<open>num_points - 1\<close>.\<close>

definition interp_points :: "int \<Rightarrow> real \<Rightarrow> int \<Rightarrow> real \<Rightarrow> int \<Rightarrow> int \<Rightarrow> sample list" where
  "interp_points angle1 dist1 angle2 dist2 interp_step num_points =
     map (\<lambda>j. (angle1 + j * interp_step * (if angle2 > angle1 then 1 else - 1),
               dist1 + (dist2 - dist1) * (real_of_int j / real_of_int num_points)))
       [1 .. num_points - 1]"

text \<open>The body of the outer loop for one adjacent pair: the first point is appended,
  then the interpolated ones. The floor division by \<^verbatim>\<open>interp_step\<close> raises
  when the divisor is zero.\<close>

definition interpolate_body :: "sample \<Rightarrow> sample \<Rightarrow> int \<Rightarrow> sample list \<Rightarrow> error + sample list" where
  "interpolate_body p1 p2 step interpolated =
     (case p1 of (angle1, dist1) \<Rightarrow> case p2 of (angle2, dist2) \<Rightarrow>
        let interpolated1 = interpolated @ [(angle1, dist1)];
            interp_step = min 5 (step div 2)
        in if interp_step = 0 then Inl ZeroDivisionError
           else let num_points = \<bar>angle2 - angle1\<bar> div interp_step
                in Inr (if num_points > 1
                        then interpolated1 @ interp_points angle1 dist1 angle2 dist2 interp_step num_points
                        else interpolated1))"

text \<open>The outer loop \<^verbatim>\<open>for i in range(len(scan_data) - 1)\<close>, run over the list of
  its indices, with the list \<^verbatim>\<open>interpolated\<close> as accumulator.\<close>

fun interpolate_loop :: "sample list \<Rightarrow> int \<Rightarrow> nat list \<Rightarrow> sample list \<Rightarrow> error + sample list" where
  "interpolate_loop scan_data step [] interpolated = Inr interpolated"
| "interpolate_loop scan_data step (i # idxs) interpolated =
     (case interpolate_body (scan_data ! i) (scan_data ! (i + 1)) step interpolated of
        Inl e \<Rightarrow> Inl e
      | Inr interpolated' \<Rightarrow> interpolate_loop scan_data step idxs interpolated')"

definition interpolate_scan :: "sample list \<Rightarrow> int \<Rightarrow> error + sample list" where
  "interpolate_scan scan_data step =
     (if length scan_data < 2 then Inr scan_data
      else case interpolate_loop scan_data step [0 ..< length scan_data - 1] [] of
             Inl e \<Rightarrow> Inl e
           | Inr interpolated \<Rightarrow>
               Inr (if scan_data \<noteq> [] then interpolated @ [last scan_data] else interpolated))"

text \<open>The interpolation as the specification words it: for each adjacent pair, the
  first sample, then the intermediate samples; the final sample closes the list.\<close>

definition spec_between :: "int \<Rightarrow> sample \<Rightarrow> sample \<Rightarrow> sample list" where
  "spec_between step p q =
     (let sub_step = min 5 (step div 2);
          steps = \<bar>fst q - fst p\<bar> div sub_step
      in if steps > 1
         then map (\<lambda>j. (if fst q > fst p then fst p + j * sub_step else fst p - j * sub_step,
                        snd p + (snd q - snd p) * (real_of_int j / real_of_int steps)))
                [1 .. steps - 1]
         else [])"

fun spec_interpolate :: "int \<Rightarrow> sample list \<Rightarrow> sample list" where
  "spec_interpolate step (p # q # rest) = p # spec_between step p q @ spec_interpolate step (q # rest)"
| "spec_interpolate step ps = ps"

subsection \<open>The occupancy array\<close>

text \<open>Indexing a numpy axis of length \<open>n\<close>: an index from \<open>-n\<close> to \<open>-1\<close> counts
  from the end, an index outside \<open>[-n, n)\<close> raises.\<close>

definition np_index :: "nat \<Rightarrow> int \<Rightarrow> error + nat" where
  "np_index n i =
     (if 0 \<le> i \<and> i < int n then Inr (nat i)
      else if - int n \<le> i \<and> i < 0 then Inr (nat (i + int n))
      else Inl IndexError)"

text \<open>The read \<^verbatim>\<open>arr[y, x]\<close> and the write \<^verbatim>\<open>arr[y, x] = v\<close>.\<close>

definition np_get :: "grid \<Rightarrow> int \<Rightarrow> int \<Rightarrow> error + int8" where
  "np_get arr y x =
     (case np_index (length arr) y of
        Inl e \<Rightarrow> Inl e
      | Inr r \<Rightarrow> (case np_index (length (arr ! r)) x of
                   Inl e \<Rightarrow> Inl e
                 | Inr c \<Rightarrow> Inr (arr ! r ! c)))"

definition np_set :: "grid \<Rightarrow> int \<Rightarrow> int \<Rightarrow> int8 \<Rightarrow> error + grid" where
  "np_set arr y x v =
     (case np_index (length arr) y of
        Inl e \<Rightarrow> Inl e
      | Inr r \<Rightarrow> (case np_index (length (arr ! r)) x of
                   Inl e \<Rightarrow> Inl e
                 | Inr c \<Rightarrow> Inr (arr[r := (arr ! r)[c := v]])))"

text \<open>\<^verbatim>\<open>np.full((n, n), v, dtype=np.int8)\<close> refuses a negative dimension.\<close>

definition np_full :: "int \<Rightarrow> int8 \<Rightarrow> error + grid" where
  "np_full n v = (if n < 0 then Inl ValueError else Inr (replicate (nat n) (replicate (nat n) v)))"

text \<open>The constructor \<^verbatim>\<open>AdvancedMapper(map_size)\<close>.\<close>

definition init_mapper :: "int \<Rightarrow> error + mapper" where
  "init_mapper n =
     (case np_full n UNKNOWN of
        Inl e \<Rightarrow> Inl e
      | Inr arr \<Rightarrow> Inr \<lparr>map_size = n, occupancy_map = arr, car_x = n div 2, car_y = n div 2,
                        car_angle = 0, scan_history = []\<rparr>)"

definition clear_map :: "mapper \<Rightarrow> error + mapper" where
  "clear_map m =
     (case np_full (map_size m) UNKNOWN of
        Inl e \<Rightarrow> Inl e
      | Inr arr \<Rightarrow> Inr (m\<lparr>occupancy_map := arr\<rparr>))"

subsection \<open>polar\_to\_cartesian\<close>

text \<open>The float operations that \<^verbatim>\<open>polar_to_cartesian\<close> uses: the subtraction
  of two angles, \<^verbatim>\<open>math.radians\<close>, \<^verbatim>\<open>math.cos\<close>, \<^verbatim>\<open>math.sin\<close>, the
  product of two floats and the sum of an integer coordinate and a float. Each rounds
  its result to a binary64 value; the source does not fix these values, the platform
  does, so they are taken as a parameter.\<close>

record float_ops =
  f_sub :: "real \<Rightarrow> real \<Rightarrow> real"
  f_radians :: "real \<Rightarrow> real"
  f_cos :: "real \<Rightarrow> real"
  f_sin :: "real \<Rightarrow> real"
  f_mul :: "real \<Rightarrow> real \<Rightarrow> real"
  f_add :: "real \<Rightarrow> real \<Rightarrow> real"

text \<open>Python 3's \<^verbatim>\<open>round\<close> of a float is exact: the integer nearest to the
  value of the float, a half going to the even neighbour.\<close>

definition py_round :: "real \<Rightarrow> int" where
  "py_round x =
     (let f = \<lfloor>x\<rfloor>; r = x - real_of_int f
      in if r < 1 / 2 then f
         else if 1 / 2 < r then f + 1
         else if even f then f else f + 1)"

definition polar_to_cartesian ::
  "float_ops \<Rightarrow> mapper \<Rightarrow> real \<Rightarrow> real \<Rightarrow> int option \<Rightarrow> int option \<Rightarrow> real option \<Rightarrow> (int \<times> int) option" where
  "polar_to_cartesian ops m angle_deg distance_cm cx cy ca =
     (let car_x' = (case cx of None \<Rightarrow> car_x m | Some v \<Rightarrow> v);
          car_y' = (case cy of None \<Rightarrow> car_y m | Some v \<Rightarrow> v);
          car_angle' = (case ca of None \<Rightarrow> car_angle m | Some v \<Rightarrow> v);
          total_angle_rad = f_radians ops (f_sub ops car_angle' angle_deg);
          x = f_add ops (real_of_int car_x') (f_mul ops distance_cm (f_cos ops total_angle_rad));
          y = f_add ops (real_of_int car_y') (f_mul ops distance_cm (f_sin ops total_angle_rad));
          x_int = py_round x;
          y_int = py_round y
      in if 0 \<le> x_int \<and> x_int < map_size m \<and> 0 \<le> y_int \<and> y_int < map_size m
         then Some (x_int, y_int)
         else None)"

subsection \<open>mark\_free\_space\<close>

text \<open>The first statement of the loop body: a cell inside the map that is not
  \<open>OCCUPIED\<close> becomes \<open>FREE\<close>; a cell outside the map is passed over.\<close>

definition mark_cell :: "int \<Rightarrow> grid \<Rightarrow> int \<Rightarrow> int \<Rightarrow> error + grid" where
  "mark_cell msize arr x y =
     (if 0 \<le> x \<and> x < msize \<and> 0 \<le> y \<and> y < msize
      then (case np_get arr y x of
              Inl e \<Rightarrow> Inl e
            | Inr v \<Rightarrow> if v \<noteq> OCCUPIED then np_set arr y x FREE else Inr arr)
      else Inr arr)"

text \<open>The rest of the loop body: the Bresenham step on \<open>(x, y, err)\<close>. Both tests
  read \<^verbatim>\<open>e2\<close>, the doubled error before the step.\<close>

definition step_x :: "int \<Rightarrow> int \<Rightarrow> int \<Rightarrow> int \<Rightarrow> int" where
  "step_x dy sx x err = (if 2 * err > - dy then x + sx else x)"

definition step_y :: "int \<Rightarrow> int \<Rightarrow> int \<Rightarrow> int \<Rightarrow> int" where
  "step_y dx sy y err = (if 2 * err < dx then y + sy else y)"

definition step_err :: "int \<Rightarrow> int \<Rightarrow> int \<Rightarrow> int" where
  "step_err dx dy err =
     (let e2 = 2 * err;
          err1 = (if e2 > - dy then err - dy else err)
      in if e2 < dx then err1 + dx else err1)"

text \<open>The loop \<^verbatim>\<open>while not (x == x2 and y == y2)\<close>. Nothing in its text bounds the
  number of rounds, so it is a partial function: \<open>None\<close> is a run that never ends.\<close>

partial_function (option) mark_free_space_loop ::
  "int \<Rightarrow> grid \<Rightarrow> int \<Rightarrow> int \<Rightarrow> int \<Rightarrow> int \<Rightarrow> int \<Rightarrow> int \<Rightarrow> int \<Rightarrow> int \<Rightarrow> int \<Rightarrow> (error + grid) option" where
  "mark_free_space_loop msize arr x2 y2 dx dy sx sy x y err =
     (if x = x2 \<and> y = y2 then Some (Inr arr)
      else case mark_cell msize arr x y of
             Inl e \<Rightarrow> Some (Inl e)
           | Inr arr' \<Rightarrow>
               mark_free_space_loop msize arr' x2 y2 dx dy sx sy
                 (step_x dy sx x err) (step_y dx sy y err) (step_err dx dy err))"

definition mark_free_space :: "mapper \<Rightarrow> int \<Rightarrow> int \<Rightarrow> int \<Rightarrow> int \<Rightarrow> (error + mapper) option" where
  "mark_free_space m x1 y1 x2 y2 =
     (let dx = \<bar>x2 - x1\<bar>;
          dy = \<bar>y2 - y1\<bar>;
          sx = (if x1 < x2 then 1 else - 1);
          sy = (if y1 < y2 then 1 else - 1);
          err = dx - dy
      in case mark_free_space_loop (map_size m) (occupancy_map m) x2 y2 dx dy sx sy x1 y1 err of
           None \<Rightarrow> None
         | Some (Inl e) \<Rightarrow> Some (Inl e)
         | Some (Inr arr) \<Rightarrow> Some (Inr (m\<lparr>occupancy_map := arr\<rparr>)))"

text \<open>The line as the specification words it: from \<open>dx\<close>, \<open>dy\<close>, the step signs and
  the running error \<open>err = dx - dy\<close>, the cells visited before the walk reaches the
  hit cell, in order.\<close>

partial_function (option) bresenham_walk ::
  "int \<Rightarrow> int \<Rightarrow> int \<Rightarrow> int \<Rightarrow> int \<Rightarrow> int \<Rightarrow> int \<Rightarrow> int \<Rightarrow> int \<Rightarrow> (int \<times> int) list option" where
  "bresenham_walk x2 y2 dx dy sx sy x y err =
     (if x = x2 \<and> y = y2 then Some []
      else Option.bind
             (bresenham_walk x2 y2 dx dy sx sy
                (if 2 * err > - dy then x + sx else x)
                (if 2 * err < dx then y + sy else y)
                ((if 2 * err > - dy then err - dy else err) + (if 2 * err < dx then dx else 0)))
             (\<lambda>cells. Some ((x, y) # cells)))"

definition bresenham :: "int \<Rightarrow> int \<Rightarrow> int \<Rightarrow> int \<Rightarrow> (int \<times> int) list option" where
  "bresenham x1 y1 x2 y2 =
     bresenham_walk x2 y2 \<bar>x2 - x1\<bar> \<bar>y2 - y1\<bar>
       (if x1 < x2 then 1 else - 1) (if y1 < y2 then 1 else - 1) x1 y1 (\<bar>x2 - x1\<bar> - \<bar>y2 - y1\<bar>)"

subsection \<open>update\_map\_from\_scan\<close>

text \<open>What the loop does with one sample once its hit cell is known: the ray from the
  car to the hit cell is marked free, then the hit cell is marked occupied and counted
  if it was not occupied before.\<close>

definition mark_hit :: "mapper \<Rightarrow> int \<Rightarrow> int \<Rightarrow> int \<Rightarrow> int \<Rightarrow> nat \<Rightarrow> (error + mapper \<times> nat) option" where
  "mark_hit m cx cy x_hit y_hit obstacles_found =
     (case mark_free_space m cx cy x_hit y_hit of
        None \<Rightarrow> None
      | Some (Inl e) \<Rightarrow> Some (Inl e)
      | Some (Inr m1) \<Rightarrow>
          (case np_get (occupancy_map m1) y_hit x_hit of
             Inl e \<Rightarrow> Some (Inl e)
           | Inr v \<Rightarrow>
               if v \<noteq> OCCUPIED
               then (case np_set (occupancy_map m1) y_hit x_hit OCCUPIED of
                       Inl e \<Rightarrow> Some (Inl e)
                     | Inr arr \<Rightarrow> Some (Inr (m1\<lparr>occupancy_map := arr\<rparr>, obstacles_found + 1)))
               else Some (Inr (m1, obstacles_found))))"

text \<open>The gate on the distance of a sample: such a sample is passed over.\<close>

definition gated :: "real \<Rightarrow> bool" where
  "gated distance \<longleftrightarrow> distance \<le> 0 \<or> distance \<ge> MAX_DISTANCE \<or> distance > OBSTACLE_THRESHOLD"

fun update_loop :: "float_ops \<Rightarrow> mapper \<Rightarrow> sample list \<Rightarrow> int \<Rightarrow> int \<Rightarrow> real \<Rightarrow> nat \<Rightarrow> (error + mapper \<times> nat) option" where
  "update_loop ops m [] cx cy ca obstacles_found = Some (Inr (m, obstacles_found))"
| "update_loop ops m (s # rest) cx cy ca obstacles_found =
     (if gated (snd s) then update_loop ops m rest cx cy ca obstacles_found
      else case polar_to_cartesian ops m (real_of_int (fst s)) (snd s) (Some cx) (Some cy) (Some ca) of
             None \<Rightarrow> update_loop ops m rest cx cy ca obstacles_found
           | Some hit_pos \<Rightarrow>
               (case mark_hit m cx cy (fst hit_pos) (snd hit_pos) obstacles_found of
                  None \<Rightarrow> None
                | Some (Inl e) \<Rightarrow> Some (Inl e)
                | Some (Inr r) \<Rightarrow> update_loop ops (fst r) rest cx cy ca (snd r)))"

definition update_map_from_scan ::
  "float_ops \<Rightarrow> mapper \<Rightarrow> sample list \<Rightarrow> int option \<Rightarrow> int option \<Rightarrow> real option \<Rightarrow> (error + mapper \<times> nat) option" where
  "update_map_from_scan ops m scan_data cx cy ca =
     update_loop ops m scan_data
       (case cx of None \<Rightarrow> car_x m | Some v \<Rightarrow> v)
       (case cy of None \<Rightarrow> car_y m | Some v \<Rightarrow> v)
       (case ca of None \<Rightarrow> car_angle m | Some v \<Rightarrow> v) 0"

subsection \<open>save\_map and load\_map\<close>

text \<open>Modelled from the spec: the file written by \<^verbatim>\<open>np.save\<close> and read by
  \<^verbatim>\<open>np.load\<close>, which are library code outside the repository. The persisted
  layout is a header with the two dimensions followed by the cells, one signed byte
  each, row after row.\<close>

record npy_file =
  npy_rows :: nat
  npy_cols :: nat
  npy_data :: "8 word list"

type_synonym filesystem = "string \<Rightarrow> npy_file option"

definition np_save :: "grid \<Rightarrow> npy_file" where
  "np_save arr =
     \<lparr>npy_rows = length arr,
      npy_cols = (case arr of [] \<Rightarrow> 0 | row # _ \<Rightarrow> length row),
      npy_data = concat arr\<rparr>"

definition np_load :: "npy_file \<Rightarrow> error + grid" where
  "np_load f =
     (if length (npy_data f) \<noteq> npy_rows f * npy_cols f then Inl ValueError
      else Inr (map (\<lambda>r. take (npy_cols f) (drop (r * npy_cols f) (npy_data f))) [0 ..< npy_rows f]))"

definition save_map :: "mapper \<Rightarrow> string \<Rightarrow> filesystem \<Rightarrow> filesystem" where
  "save_map m filename fs = fs(filename \<mapsto> np_save (occupancy_map m))"

definition load_map :: "mapper \<Rightarrow> string \<Rightarrow> filesystem \<Rightarrow> error + mapper" where
  "load_map m filename fs =
     (case fs filename of
        None \<Rightarrow> Inl FileNotFoundError
      | Some f \<Rightarrow> (case np_load f of
                    Inl e \<Rightarrow> Inl e
                  | Inr arr \<Rightarrow> Inr (m\<lparr>occupancy_map := arr\<rparr>)))"

subsection \<open>Predicates of the statements\<close>

text \<open>A numpy array is rectangular; the occupancy array of a mapper built by the
  constructor has \<open>map_size\<close> rows of \<open>map_size\<close> cells.\<close>

definition rectangular :: "grid \<Rightarrow> bool" where
  "rectangular arr \<longleftrightarrow> (\<forall>row \<in> set arr. length row = length (hd arr))"

definition wf_grid :: "int \<Rightarrow> grid \<Rightarrow> bool" where
  "wf_grid n arr \<longleftrightarrow> 0 \<le> n \<and> length arr = nat n \<and> (\<forall>row \<in> set arr. length row = nat n)"

definition wf_mapper :: "mapper \<Rightarrow> bool" where
  "wf_mapper m \<longleftrightarrow> wf_grid (map_size m) (occupancy_map m)"

definition in_map :: "int \<Rightarrow> int \<Rightarrow> int \<Rightarrow> bool" where
  "in_map n x y \<longleftrightarrow> 0 \<le> x \<and> x < n \<and> 0 \<le> y \<and> y < n"

definition cell :: "grid \<Rightarrow> int \<Rightarrow> int \<Rightarrow> int8" where
  "cell arr x y = arr ! nat y ! nat x"

text \<open>A cell is known once it has been observed free or occupied. One array is below
  another when every occupied cell of the first is occupied in the second and every
  known cell of the first is known in the second.\<close>

definition known :: "int8 \<Rightarrow> bool" where
  "known v \<longleftrightarrow> v = FREE \<or> v = OCCUPIED"

definition grid_le :: "int \<Rightarrow> grid \<Rightarrow> grid \<Rightarrow> bool" where
  "grid_le n g g' \<longleftrightarrow>
     (\<forall>x y. in_map n x y \<longrightarrow>
        (cell g x y = OCCUPIED \<longrightarrow> cell g' x y = OCCUPIED) \<and>
        (known (cell g x y) \<longrightarrow> known (cell g' x y)))"

text \<open>An array has settled for a sample, seen from a pose, when the sample's hit cell
  is occupied in it and every cell of the sample's ray inside the map is known.\<close>

definition settled :: "float_ops \<Rightarrow> mapper \<Rightarrow> int \<Rightarrow> int \<Rightarrow> real \<Rightarrow> grid \<Rightarrow> sample \<Rightarrow> bool" where
  "settled ops m cx cy ca g s \<longleftrightarrow>
     (\<not> gated (snd s) \<longrightarrow>
        (\<forall>hit cells.
           polar_to_cartesian ops m (real_of_int (fst s)) (snd s) (Some cx) (Some cy) (Some ca) = Some hit \<longrightarrow>
           bresenham cx cy (fst hit) (snd hit) = Some cells \<longrightarrow>
           cell g (fst hit) (snd hit) = OCCUPIED \<and>
           (\<forall>c \<in> set cells. in_map (map_size m) (fst c) (snd c) \<longrightarrow> known (cell g (fst c) (snd c)))))"

subsection \<open>Data for the examples\<close>

text \<open>One instance of the float operations: the operations without rounding. The
  examples use it at the bearing 0, the heading 0 and a small whole distance, where
  the binary64 operations are exact as well: the angle is 0, its cosine is 1, its
  sine is 0, and the products and sums are small integers.\<close>

definition exact_ops :: float_ops where
  "exact_ops =
     \<lparr>f_sub = (\<lambda>a b. a - b), f_radians = (\<lambda>d. d * pi / 180), f_cos = cos, f_sin = sin,
      f_mul = (\<lambda>a b. a * b), f_add = (\<lambda>a b. a + b)\<rparr>"

text \<open>The mapper that \<^verbatim>\<open>AdvancedMapper()\<close> builds, and a map of three by three cells
  with an obstacle in the middle and the car on the left edge.\<close>

definition default_mapper :: mapper where
  "default_mapper =
     \<lparr>map_size = 100, occupancy_map = replicate 100 (replicate 100 UNKNOWN),
      car_x = 50, car_y = 50, car_angle = 0, scan_history = []\<rparr>"

definition small_mapper :: mapper where
  "small_mapper =
     \<lparr>map_size = 3,
      occupancy_map = [[UNKNOWN, UNKNOWN, UNKNOWN], [UNKNOWN, OCCUPIED, UNKNOWN], [UNKNOWN, UNKNOWN, UNKNOWN]],
      car_x = 0, car_y = 1, car_angle = 0, scan_history = []\<rparr>"

section \<open>Interpolation refines its specification\<close>

lemma interpolate_body_ok:
  "min 5 (step div 2) \<noteq> 0 \<Longrightarrow>
   interpolate_body p q step acc = Inr (acc @ p # spec_between step p q)"
  by (cases p; cases q)
     (simp add: interpolate_body_def spec_between_def interp_points_def Let_def algebra_simps)

lemma interpolate_body_zero:
  "min 5 (step div 2) = 0 \<Longrightarrow> interpolate_body p q step acc = Inl ZeroDivisionError"
  by (cases p; cases q) (simp add: interpolate_body_def)

lemma interpolate_loop_ok:
  "min 5 (step div 2) \<noteq> 0 \<Longrightarrow>
   interpolate_loop scan step idxs acc =
     Inr (acc @ concat (map (\<lambda>i. scan ! i # spec_between step (scan ! i) (scan ! (i + 1))) idxs))"
  by (induction idxs arbitrary: acc) (simp_all add: interpolate_body_ok)

lemma interpolate_loop_zero:
  "min 5 (step div 2) = 0 \<Longrightarrow> idxs \<noteq> [] \<Longrightarrow>
   interpolate_loop scan step idxs acc = Inl ZeroDivisionError"
  by (cases idxs) (simp_all add: interpolate_body_zero)

lemma spec_interpolate_index:
  "xs \<noteq> [] \<Longrightarrow>
   concat (map (\<lambda>i. xs ! i # spec_between step (xs ! i) (xs ! (i + 1))) [0 ..< length xs - 1]) @ [last xs]
     = spec_interpolate step xs"
proof (induction step xs rule: spec_interpolate.induct)
  case (1 step p q rest)
  have idx: "[0 ..< length (p # q # rest) - 1] = 0 # map Suc [0 ..< length (q # rest) - 1]"
    by (simp add: upt_conv_Cons map_Suc_upt del: upt_Suc)
  show ?case
    using 1 by (simp only: idx) (simp add: comp_def del: upt_Suc)
qed simp_all

lemma interpolate_scan_refines:
  assumes "2 \<le> length scan" "min 5 (step div 2) \<noteq> 0"
  shows "interpolate_scan scan step = Inr (spec_interpolate step scan)"
proof -
  from assms(1) have ne: "scan \<noteq> []" by auto
  show ?thesis
    using assms ne spec_interpolate_index [OF ne, of step]
    by (simp add: interpolate_scan_def interpolate_loop_ok)
qed

lemma interpolate_scan_raises:
  assumes "2 \<le> length scan" "min 5 (step div 2) = 0"
  shows "interpolate_scan scan step = Inl ZeroDivisionError"
proof -
  from assms(1) have "[0 ..< length scan - 1] \<noteq> []" by simp
  then show ?thesis
    using assms by (simp add: interpolate_scan_def interpolate_loop_zero del: upt_eq_Nil_conv)
qed

lemma sub_step_zero_iff: "min 5 (step div 2) = 0 \<longleftrightarrow> step = 0 \<or> step = (1::int)"
  by (auto simp: min_def)

section \<open>Interpolation keeps the order of the bearings\<close>

lemma div_mult_le_int: "0 < (b::int) \<Longrightarrow> (a div b) * b \<le> a"
proof -
  assume b: "0 < b"
  have "b * (a div b) + a mod b = a" by simp
  moreover have "0 \<le> a mod b" using b by simp
  ultimately have "b * (a div b) \<le> a" by linarith
  then show ?thesis by (simp add: mult.commute)
qed

lemma spec_between_Nil: "min 5 (step div 2) \<le> 0 \<Longrightarrow> spec_between step p q = []"
proof -
  assume a: "min 5 (step div 2) \<le> 0"
  have "\<bar>fst q - fst p\<bar> div min 5 (step div 2) \<le> 0"
  proof (cases "min 5 (step div 2) = 0")
    case True then show ?thesis by simp
  next
    case False
    with a have "min 5 (step div 2) < 0" by simp
    then show ?thesis by (simp add: div_nonneg_neg_le0)
  qed
  then show ?thesis by (simp add: spec_between_def Let_def)
qed

lemma spec_between_up:
  assumes "fst p \<le> fst q" "s \<in> set (spec_between step p q)"
  shows "fst p \<le> fst s \<and> fst s \<le> fst q"
proof (cases "min 5 (step div 2) \<le> 0")
  case True
  with assms show ?thesis by (simp add: spec_between_Nil)
next
  case False
  define b where "b = min 5 (step div 2)"
  define n where "n = \<bar>fst q - fst p\<bar> div b"
  from False have b: "0 < b" by (simp add: b_def)
  from assms(2) obtain j where j: "1 \<le> j" "j \<le> n - 1"
    and s: "fst s = (if fst q > fst p then fst p + j * b else fst p - j * b)"
    by (auto simp: spec_between_def Let_def b_def n_def split: if_splits)
  have "j * b \<le> n * b" using j b by (simp add: mult_right_mono)
  also have "n * b \<le> \<bar>fst q - fst p\<bar>" unfolding n_def by (rule div_mult_le_int [OF b])
  finally have le: "j * b \<le> fst q - fst p" using assms(1) by simp
  have "0 \<le> j * b" using j b by simp
  with le s assms(1) show ?thesis by (auto split: if_splits)
qed

lemma spec_between_down:
  assumes "fst q \<le> fst p" "s \<in> set (spec_between step p q)"
  shows "fst q \<le> fst s \<and> fst s \<le> fst p"
proof (cases "min 5 (step div 2) \<le> 0")
  case True
  with assms show ?thesis by (simp add: spec_between_Nil)
next
  case False
  define b where "b = min 5 (step div 2)"
  define n where "n = \<bar>fst q - fst p\<bar> div b"
  from False have b: "0 < b" by (simp add: b_def)
  from assms(2) obtain j where j: "1 \<le> j" "j \<le> n - 1"
    and s: "fst s = (if fst q > fst p then fst p + j * b else fst p - j * b)"
    by (auto simp: spec_between_def Let_def b_def n_def split: if_splits)
  have "j * b \<le> n * b" using j b by (simp add: mult_right_mono)
  also have "n * b \<le> \<bar>fst q - fst p\<bar>" unfolding n_def by (rule div_mult_le_int [OF b])
  finally have le: "j * b \<le> fst p - fst q" using assms(1) by simp
  have "0 \<le> j * b" using j b by simp
  with le s assms(1) show ?thesis by (auto split: if_splits)
qed

lemma sorted_map_upto_up: "0 \<le> (b::int) \<Longrightarrow> sorted (map (\<lambda>j. a + j * b) [i .. k])"
  by (simp add: sorted_wrt_map sorted_wrt_iff_nth_less mult_right_mono)

lemma sorted_map_upto_down: "0 \<le> (b::int) \<Longrightarrow> sorted_wrt (\<ge>) (map (\<lambda>j. a - j * b) [i .. k])"
  by (simp add: sorted_wrt_map sorted_wrt_iff_nth_less mult_right_mono)

lemma spec_between_sorted_up:
  "fst p \<le> fst q \<Longrightarrow> sorted (map fst (spec_between step p q))"
proof (cases "min 5 (step div 2) \<le> 0")
  case True
  then show ?thesis by (simp add: spec_between_Nil)
next
  case False
  assume "fst p \<le> fst q"
  show ?thesis
  proof (cases "fst p < fst q")
    case True
    with False sorted_map_upto_up [of "min 5 (step div 2)" "fst p"]
    show ?thesis by (simp add: spec_between_def Let_def comp_def)
  next
    case False
    with \<open>fst p \<le> fst q\<close> have "fst p = fst q" by simp
    then show ?thesis by (simp add: spec_between_def Let_def)
  qed
qed

lemma spec_between_sorted_down:
  "fst q \<le> fst p \<Longrightarrow> sorted_wrt (\<ge>) (map fst (spec_between step p q))"
proof (cases "min 5 (step div 2) \<le> 0")
  case True
  then show ?thesis by (simp add: spec_between_Nil)
next
  case False
  assume "fst q \<le> fst p"
  with False sorted_map_upto_down [of "min 5 (step div 2)" "fst p"]
  show ?thesis by (simp add: spec_between_def Let_def comp_def)
qed

lemma spec_interpolate_hd: "spec_interpolate step (p # ps) = p # tl (spec_interpolate step (p # ps))"
  by (cases ps) simp_all

lemma spec_interpolate_sorted_up:
  "sorted (map fst xs) \<Longrightarrow>
   sorted (map fst (spec_interpolate step xs)) \<and>
   (\<forall>s \<in> set (spec_interpolate step xs). fst (hd xs) \<le> fst s)"
proof (induction step xs rule: spec_interpolate.induct)
  case (1 step p q rest)
  then have pq: "fst p \<le> fst q" and IH: "sorted (map fst (spec_interpolate step (q # rest)))"
    "\<forall>s \<in> set (spec_interpolate step (q # rest)). fst q \<le> fst s"
    by auto
  from spec_between_up [OF pq] have bt: "\<forall>s \<in> set (spec_between step p q). fst p \<le> fst s \<and> fst s \<le> fst q"
    by blast
  show ?case
    using pq IH bt spec_between_sorted_up [OF pq, of step]
    by (fastforce simp: sorted_append)
qed auto

lemma spec_interpolate_sorted_down:
  "sorted_wrt (\<ge>) (map fst xs) \<Longrightarrow>
   sorted_wrt (\<ge>) (map fst (spec_interpolate step xs)) \<and>
   (\<forall>s \<in> set (spec_interpolate step xs). fst s \<le> fst (hd xs))"
proof (induction step xs rule: spec_interpolate.induct)
  case (1 step p q rest)
  then have pq: "fst q \<le> fst p" and IH: "sorted_wrt (\<ge>) (map fst (spec_interpolate step (q # rest)))"
    "\<forall>s \<in> set (spec_interpolate step (q # rest)). fst s \<le> fst q"
    by auto
  from spec_between_down [OF pq] have bt: "\<forall>s \<in> set (spec_between step p q). fst q \<le> fst s \<and> fst s \<le> fst p"
    by blast
  show ?case
    using pq IH bt spec_between_sorted_down [OF pq, of step]
    by (fastforce simp: sorted_wrt_append)
qed auto

section \<open>The interpolation claims\<close>

lemma spec_interpolate_id:
  "min 5 (step div 2) \<le> 0 \<Longrightarrow> spec_interpolate step xs = xs"
  by (induction step xs rule: spec_interpolate.induct) (simp_all add: spec_between_Nil)

lemma interpolate_scan_short: "length scan_data < 2 \<Longrightarrow> interpolate_scan scan_data step = Inr scan_data"
  by (simp add: interpolate_scan_def)

lemma spec_interpolate_short: "length xs < 2 \<Longrightarrow> spec_interpolate step xs = xs"
  by (induction step xs rule: spec_interpolate.induct) simp_all

lemma interpolate_scan_Inr:
  assumes "interpolate_scan scan_data step = Inr out"
  shows "out = spec_interpolate step scan_data"
proof (cases "length scan_data < 2")
  case True
  with assms show ?thesis by (simp add: interpolate_scan_short spec_interpolate_short)
next
  case False
  then have len: "2 \<le> length scan_data" by simp
  show ?thesis
  proof (cases "min 5 (step div 2) = 0")
    case True
    with assms interpolate_scan_raises [OF len True] show ?thesis by simp
  next
    case False
    with assms interpolate_scan_refines [OF len False] show ?thesis by simp
  qed
qed

text \<open>
  Claim C5. A scan of fewer than two samples comes back unchanged. Otherwise, when the
  sub-step \<open>min 5 (step div 2)\<close> is not zero, the result is the interpolation of the
  specification: each sample but the last is followed by the \<open>steps - 1\<close> points
  between it and its successor, at bearings one sub-step apart towards the successor
  and at distances \<open>d1 + (d2 - d1) * (j / steps)\<close>, and the last sample closes the
  list. Whenever a result is returned, ascending bearings stay ascending and
  descending bearings stay descending. The samples (0, 10) and (30, 20) with step 15
  get the bearings 5, 10, 15, 20 and 25 between them.
\<close>

theorem interpolate_scan_spec:
  "(length scan_data < 2 \<longrightarrow> interpolate_scan scan_data step = Inr scan_data) \<and>
   (2 \<le> length scan_data \<and> min 5 (step div 2) \<noteq> 0 \<longrightarrow>
      interpolate_scan scan_data step = Inr (spec_interpolate step scan_data)) \<and>
   (\<forall>out. interpolate_scan scan_data step = Inr out \<longrightarrow>
      (sorted (map fst scan_data) \<longrightarrow> sorted (map fst out)) \<and>
      (sorted_wrt (\<ge>) (map fst scan_data) \<longrightarrow> sorted_wrt (\<ge>) (map fst out))) \<and>
   interpolate_scan [(0, 10), (30, 20)] 15 =
     Inr [(0, 10), (5, 35 / 3), (10, 40 / 3), (15, 15), (20, 50 / 3), (25, 55 / 3), (30, 20)]"
proof (intro conjI allI impI)
  assume "length scan_data < 2"
  then show "interpolate_scan scan_data step = Inr scan_data" by (rule interpolate_scan_short)
next
  assume "2 \<le> length scan_data \<and> min 5 (step div 2) \<noteq> 0"
  then show "interpolate_scan scan_data step = Inr (spec_interpolate step scan_data)"
    by (simp add: interpolate_scan_refines)
next
  fix out assume r: "interpolate_scan scan_data step = Inr out" and s: "sorted (map fst scan_data)"
  from r have "out = spec_interpolate step scan_data" by (rule interpolate_scan_Inr)
  with spec_interpolate_sorted_up [OF s, of step] show "sorted (map fst out)" by simp
next
  fix out assume r: "interpolate_scan scan_data step = Inr out"
    and s: "sorted_wrt (\<ge>) (map fst scan_data)"
  from r have "out = spec_interpolate step scan_data" by (rule interpolate_scan_Inr)
  with spec_interpolate_sorted_down [OF s, of step] show "sorted_wrt (\<ge>) (map fst out)" by simp
next
  show "interpolate_scan [(0, 10), (30, 20)] 15 =
     Inr [(0, 10), (5, 35 / 3), (10, 40 / 3), (15, 15), (20, 50 / 3), (25, 55 / 3), (30, 20)]"
    by (simp add: interpolate_scan_def interpolate_body_def interp_points_def upto.simps)
qed

theorem interpolate_scan_spec_witness:
  "interpolate_scan [(- 90, 40), (- 75, 30), (- 60, 30)] 15 =
     Inr [(- 90, 40), (- 85, 110 / 3), (- 80, 100 / 3), (- 75, 30), (- 70, 30), (- 65, 30), (- 60, 30)] \<and>
   sorted (map fst [(- 90, 40), (- 85, 110 / 3), (- 80, 100 / 3), (- 75, 30), (- 70, 30), (- 65, 30), (- 60, 30 :: real)] :: int list) \<and>
   interpolate_scan [(7, 3)] 15 = Inr [(7, 3)]"
  using interpolate_scan_spec [of "[(- 90, 40), (- 75, 30), (- 60, 30)]" 15]
    interpolate_scan_spec [of "[(7, 3)]" 15]
  by (simp add: spec_between_def upto.simps)

text \<open>
  Claim C10, amended. On a scan of at least two samples, \<open>interpolate_scan\<close> returns
  without error for every step of at least 2, raises \<open>ZeroDivisionError\<close> exactly
  for the steps 0 and 1, and for every negative step returns the scan unchanged:
  there the sub-step is negative, not zero, and no point is interpolated.
\<close>

theorem interpolate_scan_step:
  assumes "2 \<le> length scan_data"
  shows "(2 \<le> step \<longrightarrow> interpolate_scan scan_data step = Inr (spec_interpolate step scan_data)) \<and>
         (step = 0 \<or> step = 1 \<longrightarrow> interpolate_scan scan_data step = Inl ZeroDivisionError) \<and>
         (step \<le> - 1 \<longrightarrow> interpolate_scan scan_data step = Inr scan_data)"
proof (intro conjI impI)
  assume "2 \<le> step"
  then have "min 5 (step div 2) \<noteq> 0" by (simp add: sub_step_zero_iff)
  with assms show "interpolate_scan scan_data step = Inr (spec_interpolate step scan_data)"
    by (rule interpolate_scan_refines)
next
  assume "step = 0 \<or> step = 1"
  then have "min 5 (step div 2) = 0" by (simp add: sub_step_zero_iff)
  with assms show "interpolate_scan scan_data step = Inl ZeroDivisionError"
    by (rule interpolate_scan_raises)
next
  assume neg: "step \<le> - 1"
  then have nz: "min 5 (step div 2) \<noteq> 0" by (simp add: sub_step_zero_iff)
  from neg have "step div 2 < 0" by simp
  then have "min 5 (step div 2) \<le> 0" by simp
  then have "spec_interpolate step scan_data = scan_data" by (rule spec_interpolate_id)
  with interpolate_scan_refines [OF assms nz] show "interpolate_scan scan_data step = Inr scan_data"
    by simp
qed

theorem interpolate_scan_step_witness:
  "interpolate_scan [(0, 10), (12, 20)] 4 = Inr [(0, 10), (2, 35 / 3), (4, 40 / 3), (6, 15), (8, 50 / 3), (10, 55 / 3), (12, 20)] \<and>
   interpolate_scan [(0, 10), (12, 20)] 1 = Inl ZeroDivisionError \<and>
   interpolate_scan [(0, 10), (12, 20)] 0 = Inl ZeroDivisionError \<and>
   interpolate_scan [(0, 10), (12, 20)] (- 3) = Inr [(0, 10), (12, 20)]"
  using interpolate_scan_step [of "[(0, 10), (12, 20)]" 4]
    interpolate_scan_step [of "[(0, 10), (12, 20)]" 1]
    interpolate_scan_step [of "[(0, 10), (12, 20)]" 0]
    interpolate_scan_step [of "[(0, 10), (12, 20)]" "- 3"]
  by (simp add: spec_between_def upto.simps)

text \<open>The step \<open>- 1\<close> is below 2 and raises nothing.\<close>

theorem interpolate_scan_negative_step_counterexample:
  "2 \<le> length [(0, 10), (30, 20 :: real)] \<and> (- 1 :: int) \<le> 1 \<and>
   interpolate_scan [(0, 10), (30, 20)] (- 1) = Inr [(0, 10), (30, 20)]"
  by (simp add: interpolate_scan_def interpolate_body_def interp_points_def)

section \<open>The occupancy array and the loop of the ray caster\<close>

lemma np_index_in: "0 \<le> i \<Longrightarrow> i < int n \<Longrightarrow> np_index n i = Inr (nat i)"
  by (simp add: np_index_def)

lemma wf_grid_row: "wf_grid n g \<Longrightarrow> 0 \<le> y \<Longrightarrow> y < n \<Longrightarrow> length (g ! nat y) = nat n"
  by (simp add: wf_grid_def)

lemma np_get_wf: "wf_grid n g \<Longrightarrow> in_map n x y \<Longrightarrow> np_get g y x = Inr (cell g x y)"
  by (simp add: np_get_def cell_def in_map_def np_index_in wf_grid_row) (simp add: wf_grid_def np_index_in)

lemma np_set_wf:
  "wf_grid n g \<Longrightarrow> in_map n x y \<Longrightarrow> np_set g y x v = Inr (g[nat y := (g ! nat y)[nat x := v]])"
  by (simp add: np_set_def in_map_def np_index_in wf_grid_row) (simp add: wf_grid_def np_index_in)

lemma wf_grid_update:
  assumes "wf_grid n g" "in_map n x y"
  shows "wf_grid n (g[nat y := (g ! nat y)[nat x := v]])"
proof -
  have "length ((g ! nat y)[nat x := v]) = nat n"
    using assms by (simp add: in_map_def wf_grid_row)
  moreover have "set (g[nat y := (g ! nat y)[nat x := v]]) \<subseteq> insert ((g ! nat y)[nat x := v]) (set g)"
    by (rule set_update_subset_insert)
  ultimately show ?thesis
    using assms(1) unfolding wf_grid_def by auto
qed

lemma cell_update:
  assumes "wf_grid n g" "in_map n x y" "in_map n cx cy"
  shows "cell (g[nat y := (g ! nat y)[nat x := v]]) cx cy = (if cx = x \<and> cy = y then v else cell g cx cy)"
proof -
  have ly: "nat y < length g" "nat cy < length g"
    using assms by (simp_all add: wf_grid_def in_map_def)
  have lx: "nat x < length (g ! nat y)"
    using assms by (simp add: in_map_def wf_grid_row)
  have eq: "nat cy = nat y \<longleftrightarrow> cy = y" "nat cx = nat x \<longleftrightarrow> cx = x"
    using assms by (auto simp: in_map_def)
  show ?thesis
    using ly lx eq by (auto simp: cell_def nth_list_update)
qed

lemma mark_cell_wf:
  assumes "wf_grid n g"
  shows "\<exists>g'. mark_cell n g x y = Inr g' \<and> wf_grid n g' \<and>
           (\<forall>cx cy. in_map n cx cy \<longrightarrow>
              cell g' cx cy = (if cx = x \<and> cy = y \<and> cell g x y \<noteq> OCCUPIED then FREE else cell g cx cy))"
proof (cases "in_map n x y")
  case False
  then have "mark_cell n g x y = Inr g" by (auto simp: mark_cell_def in_map_def)
  with assms False show ?thesis by auto
next
  case True
  show ?thesis
  proof (cases "cell g x y = OCCUPIED")
    case occ: True
    with True assms have "mark_cell n g x y = Inr g"
      by (simp add: mark_cell_def np_get_wf) 
    with assms occ show ?thesis by auto
  next
    case free: False
    with True assms have "mark_cell n g x y = Inr (g[nat y := (g ! nat y)[nat x := FREE]])"
      by (simp add: mark_cell_def np_get_wf np_set_wf) (simp add: in_map_def)
    with assms True free show ?thesis
      by (simp add: wf_grid_update cell_update)
  qed
qed

lemma walk_end: "bresenham_walk x2 y2 dx dy sx sy x2 y2 err = Some []"
  by (rule trans [OF bresenham_walk.simps]) simp

lemma walk_step:
  "\<not> (x = x2 \<and> y = y2) \<Longrightarrow>
   bresenham_walk x2 y2 dx dy sx sy x y err =
     Option.bind (bresenham_walk x2 y2 dx dy sx sy
                (if 2 * err > - dy then x + sx else x)
                (if 2 * err < dx then y + sy else y)
                ((if 2 * err > - dy then err - dy else err) + (if 2 * err < dx then dx else 0)))
             (\<lambda>cells. Some ((x, y) # cells))"
proof -
  assume "\<not> (x = x2 \<and> y = y2)"
  then have f: "(x = x2 \<and> y = y2) = False" by simp
  show ?thesis
    by (rule trans [OF bresenham_walk.simps]) (simp only: f if_False)
qed

lemma walk_Nil: "bresenham_walk x2 y2 dx dy sx sy x y err = Some [] \<Longrightarrow> x = x2 \<and> y = y2"
  by (rule ccontr) (auto simp: walk_step split: bind_splits)

lemma walk_Cons:
  assumes "bresenham_walk x2 y2 dx dy sx sy x y err = Some (c # cs)"
  shows "\<not> (x = x2 \<and> y = y2) \<and> c = (x, y) \<and>
         bresenham_walk x2 y2 dx dy sx sy
                (if 2 * err > - dy then x + sx else x)
                (if 2 * err < dx then y + sy else y)
                ((if 2 * err > - dy then err - dy else err) + (if 2 * err < dx then dx else 0)) = Some cs"
proof -
  have ne: "\<not> (x = x2 \<and> y = y2)"
    using assms by (auto simp: walk_end)
  from assms show ?thesis
    unfolding walk_step [OF ne] using ne by (auto split: bind_splits)
qed

lemma loop_end: "mark_free_space_loop n g x2 y2 dx dy sx sy x2 y2 err = Some (Inr g)"
  by (rule trans [OF mark_free_space_loop.simps]) simp

lemma loop_step:
  "\<not> (x = x2 \<and> y = y2) \<Longrightarrow> mark_cell n g x y = Inr g1 \<Longrightarrow>
   mark_free_space_loop n g x2 y2 dx dy sx sy x y err =
     mark_free_space_loop n g1 x2 y2 dx dy sx sy
                (if 2 * err > - dy then x + sx else x)
                (if 2 * err < dx then y + sy else y)
                ((if 2 * err > - dy then err - dy else err) + (if 2 * err < dx then dx else 0))"
proof -
  assume g1: "mark_cell n g x y = Inr g1"
  assume "\<not> (x = x2 \<and> y = y2)"
  then have f: "(x = x2 \<and> y = y2) = False" by simp
  have st: "step_err dx dy err = (if 2 * err > - dy then err - dy else err) + (if 2 * err < dx then dx else 0)"
    by (simp add: step_err_def Let_def)
  show ?thesis
    by (rule trans [OF mark_free_space_loop.simps])
       (simp only: f if_False g1 sum.case st step_x_def step_y_def)
qed

lemma loop_refines_walk:
  "bresenham_walk x2 y2 dx dy sx sy x y err = Some cells \<Longrightarrow> wf_grid n g \<Longrightarrow>
   \<exists>g'. mark_free_space_loop n g x2 y2 dx dy sx sy x y err = Some (Inr g') \<and> wf_grid n g' \<and>
     (\<forall>cx cy. in_map n cx cy \<longrightarrow>
        cell g' cx cy = (if (cx, cy) \<in> set cells \<and> cell g cx cy \<noteq> OCCUPIED then FREE else cell g cx cy))"
proof (induction cells arbitrary: x y err g)
  case Nil
  from walk_Nil [OF Nil(1)] have "x = x2" "y = y2" by auto
  with Nil(2) show ?case by (auto simp: loop_end)
next
  case (Cons c cs)
  from walk_Cons [OF Cons.prems(1)]
  have ne: "\<not> (x = x2 \<and> y = y2)" and c: "c = (x, y)"
    and w: "bresenham_walk x2 y2 dx dy sx sy
                (if 2 * err > - dy then x + sx else x)
                (if 2 * err < dx then y + sy else y)
                ((if 2 * err > - dy then err - dy else err) + (if 2 * err < dx then dx else 0)) = Some cs"
    by auto
  from mark_cell_wf [OF Cons.prems(2), of x y]
  obtain g1 where g1: "mark_cell n g x y = Inr g1" "wf_grid n g1"
    and c1: "\<And>cx cy. in_map n cx cy \<Longrightarrow>
              cell g1 cx cy = (if cx = x \<and> cy = y \<and> cell g x y \<noteq> OCCUPIED then FREE else cell g cx cy)"
    by blast
  from Cons.IH [OF w g1(2)]
  obtain g' where g': "mark_free_space_loop n g1 x2 y2 dx dy sx sy
                (if 2 * err > - dy then x + sx else x)
                (if 2 * err < dx then y + sy else y)
                ((if 2 * err > - dy then err - dy else err) + (if 2 * err < dx then dx else 0)) = Some (Inr g')"
      "wf_grid n g'"
    and c2: "\<And>cx cy. in_map n cx cy \<Longrightarrow>
        cell g' cx cy = (if (cx, cy) \<in> set cs \<and> cell g1 cx cy \<noteq> OCCUPIED then FREE else cell g1 cx cy)"
    by blast
  have fo: "FREE \<noteq> OCCUPIED" by (simp add: FREE_def OCCUPIED_def)
  have "mark_free_space_loop n g x2 y2 dx dy sx sy x y err = Some (Inr g')"
    using loop_step [OF ne g1(1)] g'(1) by simp
  moreover have "\<forall>cx cy. in_map n cx cy \<longrightarrow>
        cell g' cx cy = (if (cx, cy) \<in> set (c # cs) \<and> cell g cx cy \<noteq> OCCUPIED then FREE else cell g cx cy)"
    using c1 c2 c fo by auto
  ultimately show ?case using g'(2) by blast
qed

section \<open>The Bresenham walk ends\<close>

lemma walk_terminates:
  fixes a b :: int
  assumes "0 \<le> a" "a \<le> dx" "0 \<le> b" "b \<le> dy"
    and "x2 = x + sx * a" "y2 = y + sy * b"
    and "err = dx - dy + a * dy - b * dx"
    and "sx = 1 \<or> sx = - 1" "sy = 1 \<or> sy = - 1"
  shows "\<exists>cells. bresenham_walk x2 y2 dx dy sx sy x y err = Some cells \<and>
           (\<forall>c \<in> set cells. \<exists>a' b'. 0 \<le> a' \<and> a' \<le> a \<and> 0 \<le> b' \<and> b' \<le> b \<and>
                x2 = fst c + sx * a' \<and> y2 = snd c + sy * b' \<and> \<not> (a' = 0 \<and> b' = 0))"
  using assms
proof (induction "nat (a + b)" arbitrary: a b x y err rule: less_induct)
  case less
  show ?case
  proof (cases "a = 0 \<and> b = 0")
    case True
    with less.prems have "x = x2" "y = y2" by auto
    then show ?thesis by (simp add: walk_end)
  next
    case False
    with less.prems have ne: "\<not> (x = x2 \<and> y = y2)" by auto
    define X where "X \<longleftrightarrow> 2 * err > - dy"
    define Y where "Y \<longleftrightarrow> 2 * err < dx"
    define a1 where "a1 = (if X then a - 1 else a)"
    define b1 where "b1 = (if Y then b - 1 else b)"
    define x1 where "x1 = (if X then x + sx else x)"
    define y1 where "y1 = (if Y then y + sy else y)"
    define e1 where "e1 = (if X then err - dy else err) + (if Y then dx else 0)"
    have dx0: "0 \<le> dx" and dy0: "0 \<le> dy" using less.prems by auto
    have a0: "a = 0 \<Longrightarrow> \<not> X"
    proof -
      assume a: "a = 0"
      with False less.prems have "1 \<le> b" by auto
      then have "0 \<le> (b - 1) * dx" using dx0 by simp
      then have "dx \<le> b * dx" by (simp add: algebra_simps)
      with a less.prems(7) dy0 show "\<not> X" by (simp add: X_def)
    qed
    have b0: "b = 0 \<Longrightarrow> \<not> Y"
    proof -
      assume b: "b = 0"
      with False less.prems have "1 \<le> a" by auto
      then have "0 \<le> (a - 1) * dy" using dy0 by simp
      then have "dy \<le> a * dy" by (simp add: algebra_simps)
      with b less.prems(7) dx0 show "\<not> Y" by (simp add: Y_def)
    qed
    have XY: "X \<or> Y"
    proof (rule ccontr)
      assume "\<not> (X \<or> Y)"
      then have "dx \<le> 2 * err" "2 * err \<le> - dy" by (auto simp: X_def Y_def)
      with dx0 dy0 have "dx = 0" "dy = 0" by auto
      with less.prems False show False by auto
    qed
    have Xa: "X \<Longrightarrow> 1 \<le> a" using a0 less.prems(1) by (cases "a = 0") auto
    have Yb: "Y \<Longrightarrow> 1 \<le> b" using b0 less.prems(3) by (cases "b = 0") auto
    have m: "nat (a1 + b1) < nat (a + b)"
    proof (cases X)
      case True
      with Xa Yb less.prems(3) show ?thesis by (cases Y) (simp_all add: a1_def b1_def)
    next
      case False
      with XY have Y by simp
      with False Yb less.prems(1) show ?thesis by (simp add: a1_def b1_def)
    qed
    have r: "0 \<le> a1" "a1 \<le> dx" "0 \<le> b1" "b1 \<le> dy" "a1 \<le> a" "b1 \<le> b"
      using Xa Yb less.prems(1-4) by (auto simp: a1_def b1_def)
    have px: "x2 = x1 + sx * a1"
      using less.prems(5) by (simp add: x1_def a1_def algebra_simps)
    have py: "y2 = y1 + sy * b1"
      using less.prems(6) by (simp add: y1_def b1_def algebra_simps)
    have pe: "e1 = dx - dy + a1 * dy - b1 * dx"
      using less.prems(7) by (simp add: e1_def a1_def b1_def algebra_simps)
    from less.hyps [OF m r(1-4) px py pe less.prems(8,9)]
    obtain cs where cs: "bresenham_walk x2 y2 dx dy sx sy x1 y1 e1 = Some cs"
      and cc: "\<forall>c \<in> set cs. \<exists>a' b'. 0 \<le> a' \<and> a' \<le> a1 \<and> 0 \<le> b' \<and> b' \<le> b1 \<and>
                x2 = fst c + sx * a' \<and> y2 = snd c + sy * b' \<and> \<not> (a' = 0 \<and> b' = 0)"
      by blast
    have w: "bresenham_walk x2 y2 dx dy sx sy x y err = Some ((x, y) # cs)"
      using cs unfolding walk_step [OF ne] x1_def y1_def e1_def X_def Y_def by simp
    have here: "\<exists>a' b'. 0 \<le> a' \<and> a' \<le> a \<and> 0 \<le> b' \<and> b' \<le> b \<and>
                x2 = fst (x, y) + sx * a' \<and> y2 = snd (x, y) + sy * b' \<and> \<not> (a' = 0 \<and> b' = 0)"
      using less.prems False by (intro exI [of _ a] exI [of _ b]) simp
    have rest: "\<forall>c \<in> set cs. \<exists>a' b'. 0 \<le> a' \<and> a' \<le> a \<and> 0 \<le> b' \<and> b' \<le> b \<and>
                x2 = fst c + sx * a' \<and> y2 = snd c + sy * b' \<and> \<not> (a' = 0 \<and> b' = 0)"
    proof
      fix c assume "c \<in> set cs"
      with cc obtain a' b' where "0 \<le> a'" "a' \<le> a1" "0 \<le> b'" "b' \<le> b1"
                "x2 = fst c + sx * a'" "y2 = snd c + sy * b'" "\<not> (a' = 0 \<and> b' = 0)"
        by blast
      with r(5,6) show "\<exists>a' b'. 0 \<le> a' \<and> a' \<le> a \<and> 0 \<le> b' \<and> b' \<le> b \<and>
                x2 = fst c + sx * a' \<and> y2 = snd c + sy * b' \<and> \<not> (a' = 0 \<and> b' = 0)"
        by (intro exI [of _ a'] exI [of _ b']) simp
    qed
    from w here rest show ?thesis by simp
  qed
qed

lemma bresenham_total:
  "\<exists>cells. bresenham x1 y1 x2 y2 = Some cells \<and>
     (\<forall>c \<in> set cells. c \<noteq> (x2, y2) \<and>
        min x1 x2 \<le> fst c \<and> fst c \<le> max x1 x2 \<and> min y1 y2 \<le> snd c \<and> snd c \<le> max y1 y2)"
proof -
  define sx :: int where "sx = (if x1 < x2 then 1 else - 1)"
  define sy :: int where "sy = (if y1 < y2 then 1 else - 1)"
  have "\<exists>cells. bresenham_walk x2 y2 \<bar>x2 - x1\<bar> \<bar>y2 - y1\<bar> sx sy x1 y1 (\<bar>x2 - x1\<bar> - \<bar>y2 - y1\<bar>) = Some cells \<and>
           (\<forall>c \<in> set cells. \<exists>a' b'. 0 \<le> a' \<and> a' \<le> \<bar>x2 - x1\<bar> \<and> 0 \<le> b' \<and> b' \<le> \<bar>y2 - y1\<bar> \<and>
                x2 = fst c + sx * a' \<and> y2 = snd c + sy * b' \<and> \<not> (a' = 0 \<and> b' = 0))"
    by (rule walk_terminates) (auto simp: sx_def sy_def algebra_simps)
  then obtain cells where w: "bresenham_walk x2 y2 \<bar>x2 - x1\<bar> \<bar>y2 - y1\<bar> sx sy x1 y1 (\<bar>x2 - x1\<bar> - \<bar>y2 - y1\<bar>) = Some cells"
    and cc: "\<forall>c \<in> set cells. \<exists>a' b'. 0 \<le> a' \<and> a' \<le> \<bar>x2 - x1\<bar> \<and> 0 \<le> b' \<and> b' \<le> \<bar>y2 - y1\<bar> \<and>
                x2 = fst c + sx * a' \<and> y2 = snd c + sy * b' \<and> \<not> (a' = 0 \<and> b' = 0)"
    by blast
  have "\<forall>c \<in> set cells. c \<noteq> (x2, y2) \<and>
        min x1 x2 \<le> fst c \<and> fst c \<le> max x1 x2 \<and> min y1 y2 \<le> snd c \<and> snd c \<le> max y1 y2"
  proof
    fix c assume "c \<in> set cells"
    with cc obtain a' b' where h: "0 \<le> a'" "a' \<le> \<bar>x2 - x1\<bar>" "0 \<le> b'" "b' \<le> \<bar>y2 - y1\<bar>"
                "x2 = fst c + sx * a'" "y2 = snd c + sy * b'" "\<not> (a' = 0 \<and> b' = 0)"
      by blast
    have "c \<noteq> (x2, y2)"
    proof
      assume "c = (x2, y2)"
      then have "fst c = x2" "snd c = y2" by simp_all
      with h(5,6) have "sx * a' = 0" "sy * b' = 0" by linarith+
      moreover have "sx \<noteq> 0" "sy \<noteq> 0" by (simp_all add: sx_def sy_def)
      ultimately have "a' = 0" "b' = 0" by simp_all
      with h(7) show False by simp
    qed
    moreover have "min x1 x2 \<le> fst c \<and> fst c \<le> max x1 x2"
    proof (cases "x1 < x2")
      case True
      then have "sx * a' = a'" by (simp add: sx_def)
      with h(5) have "fst c = x2 - a'" by linarith
      with True h(1,2) show ?thesis by linarith
    next
      case False
      then have "sx * a' = - a'" by (simp add: sx_def)
      with h(5) have "fst c = x2 + a'" by linarith
      with False h(1,2) show ?thesis by linarith
    qed
    moreover have "min y1 y2 \<le> snd c \<and> snd c \<le> max y1 y2"
    proof (cases "y1 < y2")
      case True
      then have "sy * b' = b'" by (simp add: sy_def)
      with h(6) have "snd c = y2 - b'" by linarith
      with True h(3,4) show ?thesis by linarith
    next
      case False
      then have "sy * b' = - b'" by (simp add: sy_def)
      with h(6) have "snd c = y2 + b'" by linarith
      with False h(3,4) show ?thesis by linarith
    qed
    ultimately show "c \<noteq> (x2, y2) \<and>
        min x1 x2 \<le> fst c \<and> fst c \<le> max x1 x2 \<and> min y1 y2 \<le> snd c \<and> snd c \<le> max y1 y2"
      by simp
  qed
  with w show ?thesis unfolding bresenham_def sx_def sy_def by blast
qed

section \<open>One ray, one hit\<close>

lemma polar_to_cartesian_in_map:
  "polar_to_cartesian ops m a d cx cy ca = Some hit \<Longrightarrow> in_map (map_size m) (fst hit) (snd hit)"
  by (auto simp: polar_to_cartesian_def Let_def in_map_def split: if_splits)

lemma polar_to_cartesian_occupancy [simp]:
  "polar_to_cartesian ops (m\<lparr>occupancy_map := g\<rparr>) a d (Some cx) (Some cy) (Some ca) =
   polar_to_cartesian ops m a d (Some cx) (Some cy) (Some ca)"
  by (simp add: polar_to_cartesian_def)

lemma grid_ext:
  assumes "wf_grid n g" "wf_grid n g'"
    and eq: "\<And>x y. in_map n x y \<Longrightarrow> cell g x y = cell g' x y"
  shows "g = g'"
proof (rule nth_equalityI)
  show "length g = length g'" using assms(1,2) by (simp add: wf_grid_def)
next
  fix r assume r: "r < length g"
  then have rn: "int r < n" using assms(1) by (simp add: wf_grid_def)
  have lr: "length (g ! r) = nat n" "length (g' ! r) = nat n"
    using assms(1,2) r by (simp_all add: wf_grid_def)
  show "g ! r = g' ! r"
  proof (rule nth_equalityI)
    show "length (g ! r) = length (g' ! r)" using lr by simp
  next
    fix c assume "c < length (g ! r)"
    then have "in_map n (int c) (int r)" using lr rn by (simp add: in_map_def)
    from eq [OF this] show "g ! r ! c = g' ! r ! c" by (simp add: cell_def)
  qed
qed

lemma mark_free_space_wf:
  assumes "wf_mapper m"
  shows "\<exists>cells g'. bresenham x1 y1 x2 y2 = Some cells \<and>
           mark_free_space m x1 y1 x2 y2 = Some (Inr (m\<lparr>occupancy_map := g'\<rparr>)) \<and>
           wf_grid (map_size m) g' \<and>
           (\<forall>cx cy. in_map (map_size m) cx cy \<longrightarrow>
              cell g' cx cy =
                (if (cx, cy) \<in> set cells \<and> cell (occupancy_map m) cx cy \<noteq> OCCUPIED then FREE
                 else cell (occupancy_map m) cx cy))"
proof -
  from bresenham_total [of x1 y1 x2 y2] obtain cells where b: "bresenham x1 y1 x2 y2 = Some cells"
    by blast
  from assms have wf: "wf_grid (map_size m) (occupancy_map m)" by (simp add: wf_mapper_def)
  from loop_refines_walk [OF b [unfolded bresenham_def] wf]
  obtain g' where g': "mark_free_space_loop (map_size m) (occupancy_map m) x2 y2 \<bar>x2 - x1\<bar> \<bar>y2 - y1\<bar>
        (if x1 < x2 then 1 else - 1) (if y1 < y2 then 1 else - 1) x1 y1 (\<bar>x2 - x1\<bar> - \<bar>y2 - y1\<bar>) = Some (Inr g')"
    and w: "wf_grid (map_size m) g'"
    and c: "\<forall>cx cy. in_map (map_size m) cx cy \<longrightarrow>
              cell g' cx cy =
                (if (cx, cy) \<in> set cells \<and> cell (occupancy_map m) cx cy \<noteq> OCCUPIED then FREE
                 else cell (occupancy_map m) cx cy)"
    by blast
  have "mark_free_space m x1 y1 x2 y2 = Some (Inr (m\<lparr>occupancy_map := g'\<rparr>))"
    by (simp add: mark_free_space_def Let_def g')
  with b w c show ?thesis by blast
qed

lemma mark_hit_wf:
  assumes "wf_mapper m" "in_map (map_size m) x_hit y_hit"
  shows "\<exists>cells g'. bresenham cx cy x_hit y_hit = Some cells \<and>
           mark_hit m cx cy x_hit y_hit found =
             Some (Inr (m\<lparr>occupancy_map := g'\<rparr>,
                        if cell (occupancy_map m) x_hit y_hit \<noteq> OCCUPIED then found + 1 else found)) \<and>
           wf_grid (map_size m) g' \<and>
           (\<forall>x y. in_map (map_size m) x y \<longrightarrow>
              cell g' x y =
                (if x = x_hit \<and> y = y_hit then OCCUPIED
                 else if (x, y) \<in> set cells \<and> cell (occupancy_map m) x y \<noteq> OCCUPIED then FREE
                 else cell (occupancy_map m) x y))"
proof -
  from mark_free_space_wf [OF assms(1), of cx cy x_hit y_hit]
  obtain cells g1 where b: "bresenham cx cy x_hit y_hit = Some cells"
    and f: "mark_free_space m cx cy x_hit y_hit = Some (Inr (m\<lparr>occupancy_map := g1\<rparr>))"
    and w1: "wf_grid (map_size m) g1"
    and c1: "\<And>x y. in_map (map_size m) x y \<Longrightarrow>
              cell g1 x y =
                (if (x, y) \<in> set cells \<and> cell (occupancy_map m) x y \<noteq> OCCUPIED then FREE
                 else cell (occupancy_map m) x y)"
    by blast
  from bresenham_total [of cx cy x_hit y_hit] b have nh: "(x_hit, y_hit) \<notin> set cells" by auto
  with c1 [OF assms(2)] have h1: "cell g1 x_hit y_hit = cell (occupancy_map m) x_hit y_hit" by simp
  have get: "np_get g1 y_hit x_hit = Inr (cell (occupancy_map m) x_hit y_hit)"
    using np_get_wf [OF w1 assms(2)] h1 by simp
  show ?thesis
  proof (cases "cell (occupancy_map m) x_hit y_hit = OCCUPIED")
    case True
    then have "mark_hit m cx cy x_hit y_hit found = Some (Inr (m\<lparr>occupancy_map := g1\<rparr>, found))"
      by (simp add: mark_hit_def f get)
    moreover have "\<forall>x y. in_map (map_size m) x y \<longrightarrow>
              cell g1 x y =
                (if x = x_hit \<and> y = y_hit then OCCUPIED
                 else if (x, y) \<in> set cells \<and> cell (occupancy_map m) x y \<noteq> OCCUPIED then FREE
                 else cell (occupancy_map m) x y)"
      using c1 h1 True by auto
    ultimately show ?thesis using b w1 True by (intro exI [of _ cells] exI [of _ g1]) simp
  next
    case False
    let ?g2 = "g1[nat y_hit := (g1 ! nat y_hit)[nat x_hit := OCCUPIED]]"
    have "mark_hit m cx cy x_hit y_hit found = Some (Inr (m\<lparr>occupancy_map := ?g2\<rparr>, found + 1))"
      using False by (simp add: mark_hit_def f get np_set_wf [OF w1 assms(2)])
    moreover have "wf_grid (map_size m) ?g2" by (rule wf_grid_update [OF w1 assms(2)])
    moreover have "\<forall>x y. in_map (map_size m) x y \<longrightarrow>
              cell ?g2 x y =
                (if x = x_hit \<and> y = y_hit then OCCUPIED
                 else if (x, y) \<in> set cells \<and> cell (occupancy_map m) x y \<noteq> OCCUPIED then FREE
                 else cell (occupancy_map m) x y)"
      using c1 by (simp add: cell_update [OF w1 assms(2)])
    ultimately show ?thesis using b False by (intro exI [of _ cells] exI [of _ ?g2]) simp
  qed
qed

section \<open>The loop over the samples\<close>

lemma grid_le_refl: "grid_le n g g"
  by (simp add: grid_le_def)

lemma grid_le_trans: "grid_le n g g1 \<Longrightarrow> grid_le n g1 g2 \<Longrightarrow> grid_le n g g2"
  unfolding grid_le_def by blast

lemma settled_occupancy [simp]:
  "settled ops (m\<lparr>occupancy_map := g0\<rparr>) cx cy ca g s = settled ops m cx cy ca g s"
  by (simp add: settled_def)

lemma settled_mono:
  assumes "settled ops m cx cy ca g s" "grid_le (map_size m) g g'"
  shows "settled ops m cx cy ca g' s"
  unfolding settled_def
proof (intro impI allI conjI ballI)
  fix hit cells
  assume h: "\<not> gated (snd s)"
    "polar_to_cartesian ops m (real_of_int (fst s)) (snd s) (Some cx) (Some cy) (Some ca) = Some hit"
    "bresenham cx cy (fst hit) (snd hit) = Some cells"
  from assms(1) h have occ: "cell g (fst hit) (snd hit) = OCCUPIED"
    and kn: "\<forall>c \<in> set cells. in_map (map_size m) (fst c) (snd c) \<longrightarrow> known (cell g (fst c) (snd c))"
    unfolding settled_def by blast+
  from polar_to_cartesian_in_map [OF h(2)] occ assms(2)
  show "cell g' (fst hit) (snd hit) = OCCUPIED" unfolding grid_le_def by blast
  fix c assume "c \<in> set cells" "in_map (map_size m) (fst c) (snd c)"
  with kn assms(2) show "known (cell g' (fst c) (snd c))" unfolding grid_le_def by blast
qed

lemma known_simps [simp]: "known FREE" "known OCCUPIED" "FREE \<noteq> OCCUPIED"
  by (simp_all add: known_def FREE_def OCCUPIED_def)

lemma mark_hit_step:
  assumes "wf_mapper m" "in_map (map_size m) x_hit y_hit"
  shows "\<exists>cells g' k. bresenham cx cy x_hit y_hit = Some cells \<and>
           mark_hit m cx cy x_hit y_hit found = Some (Inr (m\<lparr>occupancy_map := g'\<rparr>, found + k)) \<and>
           wf_grid (map_size m) g' \<and> grid_le (map_size m) (occupancy_map m) g' \<and>
           cell g' x_hit y_hit = OCCUPIED \<and>
           (\<forall>c \<in> set cells. in_map (map_size m) (fst c) (snd c) \<longrightarrow> known (cell g' (fst c) (snd c)))"
proof -
  from mark_hit_wf [OF assms, of cx cy found]
  obtain cells g' where b: "bresenham cx cy x_hit y_hit = Some cells"
    and h: "mark_hit m cx cy x_hit y_hit found =
             Some (Inr (m\<lparr>occupancy_map := g'\<rparr>,
                        if cell (occupancy_map m) x_hit y_hit \<noteq> OCCUPIED then found + 1 else found))"
    and w: "wf_grid (map_size m) g'"
    and c: "\<And>x y. in_map (map_size m) x y \<Longrightarrow>
              cell g' x y =
                (if x = x_hit \<and> y = y_hit then OCCUPIED
                 else if (x, y) \<in> set cells \<and> cell (occupancy_map m) x y \<noteq> OCCUPIED then FREE
                 else cell (occupancy_map m) x y)"
    by blast
  have le: "grid_le (map_size m) (occupancy_map m) g'"
    unfolding grid_le_def using c by auto
  have hit: "cell g' x_hit y_hit = OCCUPIED" using c [OF assms(2)] by simp
  have kn: "\<forall>c \<in> set cells. in_map (map_size m) (fst c) (snd c) \<longrightarrow> known (cell g' (fst c) (snd c))"
  proof (intro ballI impI)
    fix p assume "p \<in> set cells" "in_map (map_size m) (fst p) (snd p)"
    with c [of "fst p" "snd p"] show "known (cell g' (fst p) (snd p))" by auto
  qed
  have "mark_hit m cx cy x_hit y_hit found =
          Some (Inr (m\<lparr>occupancy_map := g'\<rparr>,
                     found + (if cell (occupancy_map m) x_hit y_hit \<noteq> OCCUPIED then 1 else 0)))"
    using h by simp
  with b w le hit kn show ?thesis by blast
qed

lemma mark_hit_settled:
  assumes "wf_mapper m" "in_map (map_size m) x_hit y_hit"
    and b: "bresenham cx cy x_hit y_hit = Some cells"
    and occ: "cell (occupancy_map m) x_hit y_hit = OCCUPIED"
    and kn: "\<forall>c \<in> set cells. in_map (map_size m) (fst c) (snd c) \<longrightarrow> known (cell (occupancy_map m) (fst c) (snd c))"
  shows "mark_hit m cx cy x_hit y_hit found = Some (Inr (m, found))"
proof -
  from mark_hit_wf [OF assms(1,2), of cx cy found] b
  obtain g' where h: "mark_hit m cx cy x_hit y_hit found =
             Some (Inr (m\<lparr>occupancy_map := g'\<rparr>,
                        if cell (occupancy_map m) x_hit y_hit \<noteq> OCCUPIED then found + 1 else found))"
    and w: "wf_grid (map_size m) g'"
    and c: "\<And>x y. in_map (map_size m) x y \<Longrightarrow>
              cell g' x y =
                (if x = x_hit \<and> y = y_hit then OCCUPIED
                 else if (x, y) \<in> set cells \<and> cell (occupancy_map m) x y \<noteq> OCCUPIED then FREE
                 else cell (occupancy_map m) x y)"
    by auto
  have "g' = occupancy_map m"
  proof (rule grid_ext [OF w])
    show "wf_grid (map_size m) (occupancy_map m)" using assms(1) by (simp add: wf_mapper_def)
  next
    fix x y assume i: "in_map (map_size m) x y"
    show "cell g' x y = cell (occupancy_map m) x y"
    proof (cases "x = x_hit \<and> y = y_hit")
      case True
      with c [OF i] occ show ?thesis by simp
    next
      case False
      show ?thesis
      proof (cases "(x, y) \<in> set cells \<and> cell (occupancy_map m) x y \<noteq> OCCUPIED")
        case True
        with kn i have "known (cell (occupancy_map m) x y)" by force
        with True have "cell (occupancy_map m) x y = FREE" by (simp add: known_def)
        with c [OF i] False True show ?thesis by simp
      next
        case nf: False
        with c [OF i] False show ?thesis by auto
      qed
    qed
  qed
  with h occ show ?thesis by simp
qed

lemma update_loop_wf:
  "wf_mapper m \<Longrightarrow>
   \<exists>g' k. update_loop ops m scan cx cy ca found = Some (Inr (m\<lparr>occupancy_map := g'\<rparr>, found + k)) \<and>
     wf_grid (map_size m) g' \<and> grid_le (map_size m) (occupancy_map m) g' \<and>
     (\<forall>s \<in> set scan. settled ops m cx cy ca g' s)"
proof (induction scan arbitrary: m found)
  case Nil
  then have "wf_grid (map_size m) (occupancy_map m)" by (simp add: wf_mapper_def)
  then show ?case
    by (intro exI [of _ "occupancy_map m"] exI [of _ 0]) (simp add: grid_le_refl)
next
  case (Cons s scan)
  show ?case
  proof (cases "gated (snd s) \<or>
      polar_to_cartesian ops m (real_of_int (fst s)) (snd s) (Some cx) (Some cy) (Some ca) = None")
    case True
    then have skip: "update_loop ops m (s # scan) cx cy ca found = update_loop ops m scan cx cy ca found"
      by auto
    from True have st: "\<And>g. settled ops m cx cy ca g s" by (auto simp: settled_def)
    from Cons.IH [OF Cons.prems, of found] skip st show ?thesis by auto
  next
    case False
    then obtain hit where ng: "\<not> gated (snd s)"
      and p: "polar_to_cartesian ops m (real_of_int (fst s)) (snd s) (Some cx) (Some cy) (Some ca) = Some hit"
      by auto
    from polar_to_cartesian_in_map [OF p] have i: "in_map (map_size m) (fst hit) (snd hit)" .
    from mark_hit_step [OF Cons.prems i, of cx cy found]
    obtain cells g1 k1 where b: "bresenham cx cy (fst hit) (snd hit) = Some cells"
      and h: "mark_hit m cx cy (fst hit) (snd hit) found = Some (Inr (m\<lparr>occupancy_map := g1\<rparr>, found + k1))"
      and w1: "wf_grid (map_size m) g1" and le1: "grid_le (map_size m) (occupancy_map m) g1"
      and occ: "cell g1 (fst hit) (snd hit) = OCCUPIED"
      and kn: "\<forall>c \<in> set cells. in_map (map_size m) (fst c) (snd c) \<longrightarrow> known (cell g1 (fst c) (snd c))"
      by blast
    have st1: "settled ops m cx cy ca g1 s"
      unfolding settled_def using p b occ kn by simp
    have wm1: "wf_mapper (m\<lparr>occupancy_map := g1\<rparr>)" using w1 by (simp add: wf_mapper_def)
    from Cons.IH [OF wm1, of "found + k1"]
    obtain g' k where u: "update_loop ops (m\<lparr>occupancy_map := g1\<rparr>) scan cx cy ca (found + k1) =
          Some (Inr (m\<lparr>occupancy_map := g'\<rparr>, found + k1 + k))"
      and w: "wf_grid (map_size m) g'" and le: "grid_le (map_size m) g1 g'"
      and st: "\<forall>s \<in> set scan. settled ops m cx cy ca g' s"
      by auto
    have "update_loop ops m (s # scan) cx cy ca found = Some (Inr (m\<lparr>occupancy_map := g'\<rparr>, found + (k1 + k)))"
      using ng p h u by (simp add: add.assoc)
    moreover have "grid_le (map_size m) (occupancy_map m) g'" by (rule grid_le_trans [OF le1 le])
    moreover have "settled ops m cx cy ca g' s" by (rule settled_mono [OF st1 le])
    ultimately show ?thesis using w st by (intro exI [of _ g'] exI [of _ "k1 + k"]) simp
  qed
qed

lemma update_loop_settled:
  "wf_mapper m \<Longrightarrow> \<forall>s \<in> set scan. settled ops m cx cy ca (occupancy_map m) s \<Longrightarrow>
   update_loop ops m scan cx cy ca found = Some (Inr (m, found))"
proof (induction scan)
  case Nil
  show ?case by simp
next
  case (Cons s scan)
  then have IH: "update_loop ops m scan cx cy ca found = Some (Inr (m, found))" by simp
  show ?case
  proof (cases "gated (snd s) \<or>
      polar_to_cartesian ops m (real_of_int (fst s)) (snd s) (Some cx) (Some cy) (Some ca) = None")
    case True
    with IH show ?thesis by auto
  next
    case False
    then obtain hit where ng: "\<not> gated (snd s)"
      and p: "polar_to_cartesian ops m (real_of_int (fst s)) (snd s) (Some cx) (Some cy) (Some ca) = Some hit"
      by auto
    from polar_to_cartesian_in_map [OF p] have i: "in_map (map_size m) (fst hit) (snd hit)" .
    from bresenham_total [of cx cy "fst hit" "snd hit"]
    obtain cells where b: "bresenham cx cy (fst hit) (snd hit) = Some cells" by blast
    from Cons.prems(2) have "settled ops m cx cy ca (occupancy_map m) s" by simp
    with ng p b have occ: "cell (occupancy_map m) (fst hit) (snd hit) = OCCUPIED"
      and kn: "\<forall>c \<in> set cells. in_map (map_size m) (fst c) (snd c) \<longrightarrow>
                 known (cell (occupancy_map m) (fst c) (snd c))"
      unfolding settled_def by blast+
    from mark_hit_settled [OF Cons.prems(1) i b occ kn, of found] ng p IH
    show ?thesis by simp
  qed
qed

lemma update_loop_gated:
  "gated (snd s) \<Longrightarrow>
   update_loop ops m (pre @ s # post) cx cy ca found = update_loop ops m (pre @ post) cx cy ca found"
  by (induction pre arbitrary: m found) (auto split: option.splits sum.splits)

section \<open>The example mappers\<close>

lemma init_default: "init_mapper MAP_SIZE = Inr default_mapper"
  by (simp add: init_mapper_def np_full_def MAP_SIZE_def default_mapper_def)

lemma init_mapper_wf: "init_mapper n = Inr m \<Longrightarrow> wf_mapper m"
  by (auto simp: init_mapper_def np_full_def wf_mapper_def wf_grid_def split: if_splits)

lemma clear_map_wf: "clear_map m = Inr m' \<Longrightarrow> wf_mapper m'"
  by (auto simp: clear_map_def np_full_def wf_mapper_def wf_grid_def split: if_splits)

lemma wf_default: "wf_mapper default_mapper"
  by (simp add: wf_mapper_def wf_grid_def default_mapper_def)

lemma wf_small: "wf_mapper small_mapper"
  by (simp add: wf_mapper_def wf_grid_def small_mapper_def)

lemma bresenham_example:
  "bresenham 50 50 50 60 =
     Some [(50, 50), (50, 51), (50, 52), (50, 53), (50, 54), (50, 55), (50, 56), (50, 57), (50, 58), (50, 59)]"
  by (simp add: bresenham_def bresenham_walk.simps)

lemma py_round_of_int [simp]: "py_round (real_of_int k) = k"
  by (simp add: py_round_def)

lemma small_polar:
  "polar_to_cartesian exact_ops small_mapper 0 2 (Some 0) (Some 1) (Some 0) = Some (2, 1)"
proof -
  have "py_round (real_of_int 2) = 2" "py_round (real_of_int 1) = 1" by (rule py_round_of_int)+
  then show ?thesis
    by (simp add: polar_to_cartesian_def exact_ops_def small_mapper_def)
qed

lemma small_ray: "bresenham 0 1 2 1 = Some [(0, 1), (1, 1)]"
  by (simp add: bresenham_def bresenham_walk.simps)

section \<open>Runs on the small map\<close>

lemma update_single:
  assumes "\<not> gated d"
    and "polar_to_cartesian ops m (real_of_int a) d (Some x1) (Some y1) (Some ca) = Some (x2, y2)"
  shows "update_map_from_scan ops m [(a, d)] (Some x1) (Some y1) (Some ca) = mark_hit m x1 y1 x2 y2 0"
proof (cases "mark_hit m x1 y1 x2 y2 0")
  case None
  with assms show ?thesis by (simp add: update_map_from_scan_def)
next
  case (Some r)
  with assms show ?thesis by (cases r) (simp_all add: update_map_from_scan_def)
qed

lemma small_mark_free_space:
  "mark_free_space small_mapper 0 1 2 1 =
     Some (Inr (small_mapper\<lparr>occupancy_map :=
       [[UNKNOWN, UNKNOWN, UNKNOWN], [FREE, OCCUPIED, UNKNOWN], [UNKNOWN, UNKNOWN, UNKNOWN]]\<rparr>))"
  by (simp add: mark_free_space_def mark_free_space_loop.simps mark_cell_def np_get_def np_set_def
      np_index_def step_x_def step_y_def step_err_def small_mapper_def UNKNOWN_def FREE_def OCCUPIED_def)

lemma small_update:
  "update_map_from_scan exact_ops small_mapper [(0, 2)] None None None =
     Some (Inr (small_mapper\<lparr>occupancy_map :=
       [[UNKNOWN, UNKNOWN, UNKNOWN], [FREE, OCCUPIED, OCCUPIED], [UNKNOWN, UNKNOWN, UNKNOWN]]\<rparr>, 1))"
proof -
  have g: "\<not> gated 2" by (simp add: gated_def MAX_DISTANCE_def OBSTACLE_THRESHOLD_def)
  have c: "car_x small_mapper = 0" "car_y small_mapper = 1" "car_angle small_mapper = 0"
    by (simp_all add: small_mapper_def)
  have h: "mark_hit small_mapper 0 1 2 1 0 =
     Some (Inr (small_mapper\<lparr>occupancy_map :=
       [[UNKNOWN, UNKNOWN, UNKNOWN], [FREE, OCCUPIED, OCCUPIED], [UNKNOWN, UNKNOWN, UNKNOWN]]\<rparr>, 1))"
    by (simp add: mark_hit_def small_mark_free_space np_get_def np_set_def np_index_def
        UNKNOWN_def FREE_def OCCUPIED_def)
  show ?thesis
    using g small_polar h by (simp add: update_map_from_scan_def c)
qed

section \<open>Monotone occupancy and the ray-cast update\<close>

lemma occupancy_update_inject: "m\<lparr>occupancy_map := a\<rparr> = m\<lparr>occupancy_map := b\<rparr> \<Longrightarrow> a = b"
  by (drule arg_cong [where f = occupancy_map]) simp

lemma default_unknown:
  assumes "in_map (map_size default_mapper) x y"
  shows "cell (occupancy_map default_mapper) x y = UNKNOWN"
proof -
  from assms have "0 \<le> x" "x < 100" "0 \<le> y" "y < 100" by (simp_all add: default_mapper_def in_map_def)
  then have "nat x < 100" "nat y < 100" by linarith+
  then show ?thesis by (simp add: default_mapper_def cell_def)
qed

text \<open>
  Claim C1. On a mapper whose array has the shape of its map, \<open>mark_free_space\<close> and
  \<open>update_map_from_scan\<close> return without error, keep the shape, and leave occupied
  every cell that was occupied; \<open>clear_map\<close> is the operation that sets every cell
  back to unknown.
\<close>

theorem occupied_stays_occupied:
  assumes "wf_mapper m"
  shows "(\<exists>g'. mark_free_space m x1 y1 x2 y2 = Some (Inr (m\<lparr>occupancy_map := g'\<rparr>)) \<and>
            wf_grid (map_size m) g' \<and>
            (\<forall>x y. in_map (map_size m) x y \<and> cell (occupancy_map m) x y = OCCUPIED \<longrightarrow>
               cell g' x y = OCCUPIED)) \<and>
         (\<exists>g' k. update_map_from_scan ops m scan_data cx cy ca = Some (Inr (m\<lparr>occupancy_map := g'\<rparr>, k)) \<and>
            wf_grid (map_size m) g' \<and>
            (\<forall>x y. in_map (map_size m) x y \<and> cell (occupancy_map m) x y = OCCUPIED \<longrightarrow>
               cell g' x y = OCCUPIED)) \<and>
         (\<exists>g'. clear_map m = Inr (m\<lparr>occupancy_map := g'\<rparr>) \<and> wf_grid (map_size m) g' \<and>
            (\<forall>x y. in_map (map_size m) x y \<longrightarrow> cell g' x y = UNKNOWN))"
proof (intro conjI)
  from mark_free_space_wf [OF assms, of x1 y1 x2 y2]
  show "\<exists>g'. mark_free_space m x1 y1 x2 y2 = Some (Inr (m\<lparr>occupancy_map := g'\<rparr>)) \<and>
            wf_grid (map_size m) g' \<and>
            (\<forall>x y. in_map (map_size m) x y \<and> cell (occupancy_map m) x y = OCCUPIED \<longrightarrow>
               cell g' x y = OCCUPIED)"
    by auto
next
  from update_loop_wf [OF assms, of ops scan_data _ _ _ 0]
  show "\<exists>g' k. update_map_from_scan ops m scan_data cx cy ca = Some (Inr (m\<lparr>occupancy_map := g'\<rparr>, k)) \<and>
            wf_grid (map_size m) g' \<and>
            (\<forall>x y. in_map (map_size m) x y \<and> cell (occupancy_map m) x y = OCCUPIED \<longrightarrow>
               cell g' x y = OCCUPIED)"
    unfolding update_map_from_scan_def grid_le_def by (metis add_0)
next
  from assms have n: "0 \<le> map_size m" by (simp add: wf_mapper_def wf_grid_def)
  let ?g = "replicate (nat (map_size m)) (replicate (nat (map_size m)) UNKNOWN)"
  have "clear_map m = Inr (m\<lparr>occupancy_map := ?g\<rparr>)" using n by (simp add: clear_map_def np_full_def)
  moreover have "wf_grid (map_size m) ?g" using n by (simp add: wf_grid_def)
  moreover have "\<forall>x y. in_map (map_size m) x y \<longrightarrow> cell ?g x y = UNKNOWN"
    by (simp add: in_map_def cell_def)
  ultimately show "\<exists>g'. clear_map m = Inr (m\<lparr>occupancy_map := g'\<rparr>) \<and> wf_grid (map_size m) g' \<and>
            (\<forall>x y. in_map (map_size m) x y \<longrightarrow> cell g' x y = UNKNOWN)"
    by blast
qed

theorem occupied_stays_occupied_witness:
  "wf_mapper small_mapper \<and> cell (occupancy_map small_mapper) 1 1 = OCCUPIED \<and>
   (\<exists>g'. mark_free_space small_mapper 0 1 2 1 = Some (Inr (small_mapper\<lparr>occupancy_map := g'\<rparr>)) \<and>
      cell g' 1 1 = OCCUPIED \<and> cell g' 0 1 = FREE) \<and>
   (\<exists>g' k. update_map_from_scan exact_ops small_mapper [(0, 2)] None None None =
        Some (Inr (small_mapper\<lparr>occupancy_map := g'\<rparr>, k)) \<and>
      cell g' 1 1 = OCCUPIED \<and> cell g' 2 1 = OCCUPIED)"
proof -
  have o: "cell (occupancy_map small_mapper) 1 1 = OCCUPIED" "in_map (map_size small_mapper) 1 1"
    by (simp_all add: small_mapper_def cell_def in_map_def)
  from occupied_stays_occupied [OF wf_small, of 0 1 2 1 exact_ops "[(0, 2)]" None None None]
  obtain g1 g2 k where
    f: "mark_free_space small_mapper 0 1 2 1 = Some (Inr (small_mapper\<lparr>occupancy_map := g1\<rparr>))"
      "\<forall>x y. in_map (map_size small_mapper) x y \<and> cell (occupancy_map small_mapper) x y = OCCUPIED \<longrightarrow>
         cell g1 x y = OCCUPIED"
    and u: "update_map_from_scan exact_ops small_mapper [(0, 2)] None None None =
        Some (Inr (small_mapper\<lparr>occupancy_map := g2\<rparr>, k))"
      "\<forall>x y. in_map (map_size small_mapper) x y \<and> cell (occupancy_map small_mapper) x y = OCCUPIED \<longrightarrow>
         cell g2 x y = OCCUPIED"
    by blast
  from f(2) u(2) o have k: "cell g1 1 1 = OCCUPIED" "cell g2 1 1 = OCCUPIED" by blast+
  from f(1) have "small_mapper\<lparr>occupancy_map :=
        [[UNKNOWN, UNKNOWN, UNKNOWN], [FREE, OCCUPIED, UNKNOWN], [UNKNOWN, UNKNOWN, UNKNOWN]]\<rparr> =
      small_mapper\<lparr>occupancy_map := g1\<rparr>"
    unfolding small_mark_free_space by simp
  then have "g1 = [[UNKNOWN, UNKNOWN, UNKNOWN], [FREE, OCCUPIED, UNKNOWN], [UNKNOWN, UNKNOWN, UNKNOWN]]"
    by (rule occupancy_update_inject [symmetric])
  then have g1: "cell g1 0 1 = FREE" by (simp add: cell_def)
  from u(1) have "small_mapper\<lparr>occupancy_map :=
        [[UNKNOWN, UNKNOWN, UNKNOWN], [FREE, OCCUPIED, OCCUPIED], [UNKNOWN, UNKNOWN, UNKNOWN]]\<rparr> =
      small_mapper\<lparr>occupancy_map := g2\<rparr>"
    unfolding small_update by simp
  then have "g2 = [[UNKNOWN, UNKNOWN, UNKNOWN], [FREE, OCCUPIED, OCCUPIED], [UNKNOWN, UNKNOWN, UNKNOWN]]"
    by (rule occupancy_update_inject [symmetric])
  then have g2: "cell g2 2 1 = OCCUPIED" by (simp add: cell_def)
  from wf_small o(1) f(1) u(1) k g1 g2 show ?thesis by blast
qed

text \<open>
  Claim C2. For a start cell and a hit cell inside the map, one update walks the
  Bresenham line of the specification from the start to the hit cell, a line that
  stays inside the map and does not contain the hit cell. Afterwards the hit cell is
  occupied, every cell of the line that was not occupied is free, every other cell
  is as before, and the count of new obstacles has grown by one exactly when the hit
  cell was not occupied before. A sample that passes the gate and is transformed to
  the hit cell is processed by exactly this update. The line from (50, 50) to
  (50, 60) consists of the cells (50, 50) to (50, 59).
\<close>

theorem ray_cast_update:
  assumes "wf_mapper m" "in_map (map_size m) x1 y1" "in_map (map_size m) x2 y2"
  shows "(\<exists>cells g'.
            bresenham x1 y1 x2 y2 = Some cells \<and>
            (\<forall>c \<in> set cells. c \<noteq> (x2, y2) \<and> in_map (map_size m) (fst c) (snd c)) \<and>
            mark_hit m x1 y1 x2 y2 found =
              Some (Inr (m\<lparr>occupancy_map := g'\<rparr>,
                         if cell (occupancy_map m) x2 y2 \<noteq> OCCUPIED then found + 1 else found)) \<and>
            wf_grid (map_size m) g' \<and>
            (\<forall>x y. in_map (map_size m) x y \<longrightarrow>
               cell g' x y =
                 (if x = x2 \<and> y = y2 then OCCUPIED
                  else if (x, y) \<in> set cells \<and> cell (occupancy_map m) x y \<noteq> OCCUPIED then FREE
                  else cell (occupancy_map m) x y))) \<and>
         (\<not> gated d \<and> polar_to_cartesian ops m (real_of_int a) d (Some x1) (Some y1) (Some ca) = Some (x2, y2) \<longrightarrow>
            update_map_from_scan ops m [(a, d)] (Some x1) (Some y1) (Some ca) = mark_hit m x1 y1 x2 y2 0) \<and>
         bresenham 50 50 50 60 =
           Some [(50, 50), (50, 51), (50, 52), (50, 53), (50, 54), (50, 55), (50, 56), (50, 57), (50, 58), (50, 59)]"
proof (intro conjI)
  from mark_hit_wf [OF assms(1,3), of x1 y1 found]
  obtain cells g' where b: "bresenham x1 y1 x2 y2 = Some cells"
    and h: "mark_hit m x1 y1 x2 y2 found =
              Some (Inr (m\<lparr>occupancy_map := g'\<rparr>,
                         if cell (occupancy_map m) x2 y2 \<noteq> OCCUPIED then found + 1 else found))"
    and w: "wf_grid (map_size m) g'"
    and c: "\<forall>x y. in_map (map_size m) x y \<longrightarrow>
               cell g' x y =
                 (if x = x2 \<and> y = y2 then OCCUPIED
                  else if (x, y) \<in> set cells \<and> cell (occupancy_map m) x y \<noteq> OCCUPIED then FREE
                  else cell (occupancy_map m) x y)"
    by blast
  have "\<forall>c \<in> set cells. c \<noteq> (x2, y2) \<and> in_map (map_size m) (fst c) (snd c)"
  proof
    fix p assume "p \<in> set cells"
    with bresenham_total [of x1 y1 x2 y2] b
    have "p \<noteq> (x2, y2)" "min x1 x2 \<le> fst p" "fst p \<le> max x1 x2" "min y1 y2 \<le> snd p" "snd p \<le> max y1 y2"
      by auto
    with assms(2,3) show "p \<noteq> (x2, y2) \<and> in_map (map_size m) (fst p) (snd p)"
      unfolding in_map_def by linarith
  qed
  with b h w c show "\<exists>cells g'.
            bresenham x1 y1 x2 y2 = Some cells \<and>
            (\<forall>c \<in> set cells. c \<noteq> (x2, y2) \<and> in_map (map_size m) (fst c) (snd c)) \<and>
            mark_hit m x1 y1 x2 y2 found =
              Some (Inr (m\<lparr>occupancy_map := g'\<rparr>,
                         if cell (occupancy_map m) x2 y2 \<noteq> OCCUPIED then found + 1 else found)) \<and>
            wf_grid (map_size m) g' \<and>
            (\<forall>x y. in_map (map_size m) x y \<longrightarrow>
               cell g' x y =
                 (if x = x2 \<and> y = y2 then OCCUPIED
                  else if (x, y) \<in> set cells \<and> cell (occupancy_map m) x y \<noteq> OCCUPIED then FREE
                  else cell (occupancy_map m) x y))"
    by blast
next
  show "\<not> gated d \<and> polar_to_cartesian ops m (real_of_int a) d (Some x1) (Some y1) (Some ca) = Some (x2, y2) \<longrightarrow>
            update_map_from_scan ops m [(a, d)] (Some x1) (Some y1) (Some ca) = mark_hit m x1 y1 x2 y2 0"
    by (simp add: update_single)
next
  show "bresenham 50 50 50 60 =
           Some [(50, 50), (50, 51), (50, 52), (50, 53), (50, 54), (50, 55), (50, 56), (50, 57), (50, 58), (50, 59)]"
    by (rule bresenham_example)
qed

theorem ray_cast_update_witness:
  "wf_mapper default_mapper \<and> in_map (map_size default_mapper) 50 50 \<and> in_map (map_size default_mapper) 50 60 \<and>
   (\<exists>g'. mark_hit default_mapper 50 50 50 60 0 = Some (Inr (default_mapper\<lparr>occupancy_map := g'\<rparr>, 1)) \<and>
      cell g' 50 60 = OCCUPIED \<and>
      map (cell g' 50) [50, 51, 52, 53, 54, 55, 56, 57, 58, 59] = replicate 10 FREE \<and>
      cell g' 50 61 = UNKNOWN \<and> cell g' 51 55 = UNKNOWN)"
proof -
  have i: "in_map (map_size default_mapper) 50 50" "in_map (map_size default_mapper) 50 60"
    by (simp_all add: default_mapper_def in_map_def)
  note u = default_unknown
  have uo: "UNKNOWN \<noteq> OCCUPIED" by (simp add: UNKNOWN_def OCCUPIED_def)
  from ray_cast_update [OF wf_default i, of 0, THEN conjunct1]
  obtain cells g' where b: "bresenham 50 50 50 60 = Some cells"
    and h: "mark_hit default_mapper 50 50 50 60 0 =
              Some (Inr (default_mapper\<lparr>occupancy_map := g'\<rparr>,
                         if cell (occupancy_map default_mapper) 50 60 \<noteq> OCCUPIED then 0 + 1 else 0))"
    and c0: "\<forall>x y. in_map (map_size default_mapper) x y \<longrightarrow>
               cell g' x y =
                 (if x = 50 \<and> y = 60 then OCCUPIED
                  else if (x, y) \<in> set cells \<and>
                          cell (occupancy_map default_mapper) x y \<noteq> OCCUPIED then FREE
                  else cell (occupancy_map default_mapper) x y)"
    by blast
  from b have cells: "cells = [(50, 50), (50, 51), (50, 52), (50, 53), (50, 54), (50, 55),
                                         (50, 56), (50, 57), (50, 58), (50, 59)]"
    unfolding bresenham_example by simp
  have c: "\<And>x y. in_map (map_size default_mapper) x y \<Longrightarrow>
               cell g' x y =
                 (if x = 50 \<and> y = 60 then OCCUPIED
                  else if (x, y) \<in> set [(50, 50), (50, 51), (50, 52), (50, 53), (50, 54), (50, 55),
                                         (50, 56), (50, 57), (50, 58), (50, 59)] \<and>
                          cell (occupancy_map default_mapper) x y \<noteq> OCCUPIED then FREE
                  else cell (occupancy_map default_mapper) x y)"
    using c0 unfolding cells by blast
  have im: "\<And>x y. 0 \<le> x \<Longrightarrow> x < 100 \<Longrightarrow> 0 \<le> y \<Longrightarrow> y < 100 \<Longrightarrow> in_map (map_size default_mapper) x y"
    by (simp add: default_mapper_def in_map_def)
  have h': "mark_hit default_mapper 50 50 50 60 0 = Some (Inr (default_mapper\<lparr>occupancy_map := g'\<rparr>, 1))"
    using h u [OF i(2)] uo by simp
  have c1: "cell g' 50 60 = OCCUPIED" using c [OF i(2)] by simp
  have c2: "map (cell g' 50) [50, 51, 52, 53, 54, 55, 56, 57, 58, 59] = replicate 10 FREE"
    using uo by (simp add: c im u numeral_eq_Suc)
  have c3: "cell g' 50 61 = UNKNOWN" "cell g' 51 55 = UNKNOWN"
    by (simp_all add: c im u)
  from wf_default i h' c1 c2 c3 show ?thesis by blast
qed

section \<open>Gated samples, repeated updates and cells outside the map\<close>

text \<open>
  Claim C6. A sample whose distance is not positive, or at least the maximum range of
  100 cm, or above the obstacle threshold of 80 cm, is passed over: the update of a
  scan with such a sample is the update of the scan without it, and a scan of such a
  sample alone leaves the mapper as it was and counts no obstacle. A sample at 85 cm
  is one of them.
\<close>

theorem gated_sample_skipped:
  "(gated d \<longleftrightarrow> d \<le> 0 \<or> 100 \<le> d \<or> 80 < d) \<and>
   (gated d \<longrightarrow>
      update_map_from_scan ops m (pre @ (a, d) # post) cx cy ca = update_map_from_scan ops m (pre @ post) cx cy ca) \<and>
   (gated d \<longrightarrow> update_map_from_scan ops m [(a, d)] cx cy ca = Some (Inr (m, 0))) \<and>
   update_map_from_scan ops m [(a, 85)] cx cy ca = Some (Inr (m, 0))"
proof (intro conjI impI)
  show "gated d \<longleftrightarrow> d \<le> 0 \<or> 100 \<le> d \<or> 80 < d"
    by (simp add: gated_def MAX_DISTANCE_def OBSTACLE_THRESHOLD_def)
next
  assume "gated d"
  then have "gated (snd (a, d))" by simp
  then show "update_map_from_scan ops m (pre @ (a, d) # post) cx cy ca = update_map_from_scan ops m (pre @ post) cx cy ca"
    unfolding update_map_from_scan_def by (rule update_loop_gated)
next
  assume "gated d"
  then show "update_map_from_scan ops m [(a, d)] cx cy ca = Some (Inr (m, 0))"
    by (simp add: update_map_from_scan_def)
next
  have "gated 85" by (simp add: gated_def MAX_DISTANCE_def OBSTACLE_THRESHOLD_def)
  then show "update_map_from_scan ops m [(a, 85)] cx cy ca = Some (Inr (m, 0))"
    by (simp add: update_map_from_scan_def)
qed

theorem gated_sample_skipped_witness:
  "gated 85 \<and> gated 0 \<and> gated 100 \<and> \<not> gated 80 \<and>
   update_map_from_scan exact_ops small_mapper [(0, 85), (0, 2), (15, 0)] None None None =
     Some (Inr (small_mapper\<lparr>occupancy_map :=
       [[UNKNOWN, UNKNOWN, UNKNOWN], [FREE, OCCUPIED, OCCUPIED], [UNKNOWN, UNKNOWN, UNKNOWN]]\<rparr>, 1)) \<and>
   update_map_from_scan exact_ops small_mapper [(0, 85)] None None None = Some (Inr (small_mapper, 0))"
proof -
  have g: "gated 85" "gated 0" "gated 100" "\<not> gated 80"
    using gated_sample_skipped [of 85] gated_sample_skipped [of 0] gated_sample_skipped [of 100]
      gated_sample_skipped [of 80]
    by simp_all
  have "update_map_from_scan exact_ops small_mapper ([] @ (0, 85) # [(0, 2), (15, 0)]) None None None =
        update_map_from_scan exact_ops small_mapper ([] @ [(0, 2), (15, 0)]) None None None"
    using gated_sample_skipped [of 85 exact_ops small_mapper "[]" 0 "[(0, 2), (15, 0)]" None None None] g(1) by blast
  moreover have "update_map_from_scan exact_ops small_mapper ([(0, 2)] @ (15, 0) # []) None None None =
        update_map_from_scan exact_ops small_mapper ([(0, 2)] @ []) None None None"
    using gated_sample_skipped [of 0 exact_ops small_mapper "[(0, 2)]" 15 "[]" None None None] g(2) by blast
  ultimately have "update_map_from_scan exact_ops small_mapper [(0, 85), (0, 2), (15, 0)] None None None =
     Some (Inr (small_mapper\<lparr>occupancy_map :=
       [[UNKNOWN, UNKNOWN, UNKNOWN], [FREE, OCCUPIED, OCCUPIED], [UNKNOWN, UNKNOWN, UNKNOWN]]\<rparr>, 1))"
    using small_update by simp
  moreover have "update_map_from_scan exact_ops small_mapper [(0, 85)] None None None = Some (Inr (small_mapper, 0))"
    using gated_sample_skipped [of 85 exact_ops small_mapper "[]" 0 "[]" None None None] by blast
  ultimately show ?thesis using g by blast
qed

text \<open>
  Claim C7. On a mapper whose array has the shape of its map, a run of
  \<open>update_map_from_scan\<close> returns a mapper on which a second run with the same
  scan from the same pose changes nothing and counts no new obstacle.
\<close>

theorem update_idempotent:
  assumes "wf_mapper m"
  shows "\<exists>m1 k. update_map_from_scan ops m scan_data cx cy ca = Some (Inr (m1, k)) \<and>
           update_map_from_scan ops m1 scan_data cx cy ca = Some (Inr (m1, 0))"
proof -
  define px where "px = (case cx of None \<Rightarrow> car_x m | Some v \<Rightarrow> v)"
  define py where "py = (case cy of None \<Rightarrow> car_y m | Some v \<Rightarrow> v)"
  define pa where "pa = (case ca of None \<Rightarrow> car_angle m | Some v \<Rightarrow> v)"
  from update_loop_wf [OF assms, of ops scan_data px py pa 0]
  obtain g' k where u: "update_loop ops m scan_data px py pa 0 = Some (Inr (m\<lparr>occupancy_map := g'\<rparr>, k))"
    and w: "wf_grid (map_size m) g'"
    and st: "\<forall>s \<in> set scan_data. settled ops m px py pa g' s"
    by auto
  let ?m1 = "m\<lparr>occupancy_map := g'\<rparr>"
  have wm: "wf_mapper ?m1" using w by (simp add: wf_mapper_def)
  have st1: "\<forall>s \<in> set scan_data. settled ops ?m1 px py pa (occupancy_map ?m1) s" using st by simp
  have first: "update_map_from_scan ops m scan_data cx cy ca = Some (Inr (?m1, k))"
    using u by (simp add: update_map_from_scan_def px_def py_def pa_def)
  have pose: "(case cx of None \<Rightarrow> car_x ?m1 | Some v \<Rightarrow> v) = px"
    "(case cy of None \<Rightarrow> car_y ?m1 | Some v \<Rightarrow> v) = py"
    "(case ca of None \<Rightarrow> car_angle ?m1 | Some v \<Rightarrow> v) = pa"
    by (simp_all add: px_def py_def pa_def split: option.split)
  have second: "update_map_from_scan ops ?m1 scan_data cx cy ca = Some (Inr (?m1, 0))"
    unfolding update_map_from_scan_def pose by (rule update_loop_settled [OF wm st1])
  from first second show ?thesis by blast
qed

theorem update_idempotent_witness:
  "wf_mapper small_mapper \<and>
   update_map_from_scan exact_ops small_mapper [(0, 2)] None None None =
     Some (Inr (small_mapper\<lparr>occupancy_map :=
       [[UNKNOWN, UNKNOWN, UNKNOWN], [FREE, OCCUPIED, OCCUPIED], [UNKNOWN, UNKNOWN, UNKNOWN]]\<rparr>, 1)) \<and>
   update_map_from_scan exact_ops (small_mapper\<lparr>occupancy_map :=
       [[UNKNOWN, UNKNOWN, UNKNOWN], [FREE, OCCUPIED, OCCUPIED], [UNKNOWN, UNKNOWN, UNKNOWN]]\<rparr>)
     [(0, 2)] None None None =
     Some (Inr (small_mapper\<lparr>occupancy_map :=
       [[UNKNOWN, UNKNOWN, UNKNOWN], [FREE, OCCUPIED, OCCUPIED], [UNKNOWN, UNKNOWN, UNKNOWN]]\<rparr>, 0))"
proof -
  from update_idempotent [OF wf_small, of exact_ops "[(0, 2)]" None None None]
  obtain m1 k where a: "update_map_from_scan exact_ops small_mapper [(0, 2)] None None None = Some (Inr (m1, k))"
    and b: "update_map_from_scan exact_ops m1 [(0, 2)] None None None = Some (Inr (m1, 0))"
    by blast
  from a have "m1 = small_mapper\<lparr>occupancy_map :=
       [[UNKNOWN, UNKNOWN, UNKNOWN], [FREE, OCCUPIED, OCCUPIED], [UNKNOWN, UNKNOWN, UNKNOWN]]\<rparr>"
    unfolding small_update by simp
  with b wf_small small_update show ?thesis by simp
qed

lemma polar_to_cartesian_pose:
  "polar_to_cartesian ops m a d cx cy ca =
   polar_to_cartesian ops m a d
     (Some (case cx of None \<Rightarrow> car_x m | Some v \<Rightarrow> v))
     (Some (case cy of None \<Rightarrow> car_y m | Some v \<Rightarrow> v))
     (Some (case ca of None \<Rightarrow> car_angle m | Some v \<Rightarrow> v))"
  by (simp add: polar_to_cartesian_def split: option.split)

lemma mark_hit_mapper:
  "mark_hit m cx cy x_hit y_hit found = Some (Inr r) \<Longrightarrow> \<exists>g. fst r = m\<lparr>occupancy_map := g\<rparr>"
  by (auto simp: mark_hit_def mark_free_space_def Let_def split: option.splits sum.splits if_splits)

lemma update_loop_none:
  "polar_to_cartesian ops m (real_of_int (fst s)) (snd s) (Some cx) (Some cy) (Some ca) = None \<Longrightarrow>
   update_loop ops m (pre @ s # post) cx cy ca found = update_loop ops m (pre @ post) cx cy ca found"
proof (induction pre arbitrary: m found)
  case Nil
  then show ?case by simp
next
  case (Cons p pre)
  show ?case
  proof (cases "gated (snd p) \<or>
      polar_to_cartesian ops m (real_of_int (fst p)) (snd p) (Some cx) (Some cy) (Some ca) = None")
    case True
    with Cons.IH [OF Cons.prems, of found] show ?thesis by auto
  next
    case False
    then obtain hit where ng: "\<not> gated (snd p)"
      and ph: "polar_to_cartesian ops m (real_of_int (fst p)) (snd p) (Some cx) (Some cy) (Some ca) = Some hit"
      by auto
    show ?thesis
    proof (cases "mark_hit m cx cy (fst hit) (snd hit) found")
      case None
      with ng ph show ?thesis by simp
    next
      case (Some res)
      show ?thesis
      proof (cases res)
        case (Inl e)
        with Some ng ph show ?thesis by simp
      next
        case (Inr r)
        with Some mark_hit_mapper obtain g where g: "fst r = m\<lparr>occupancy_map := g\<rparr>" by blast
        have "polar_to_cartesian ops (fst r) (real_of_int (fst s)) (snd s) (Some cx) (Some cy) (Some ca) = None"
          using Cons.prems unfolding g by simp
        from Cons.IH [OF this, of "snd r"] Some Inr ng ph show ?thesis by simp
      qed
    qed
  qed
qed

text \<open>
  Claim C9, amended. On a mapper whose array has \<open>map_size\<close> rows of \<open>map_size\<close>
  cells, no write raises on a coordinate outside the map. A cell of the ray outside
  the map is passed over: the array is not written and nothing is raised. So
  \<open>mark_free_space\<close> from any start to any end, and \<open>update_map_from_scan\<close> from any
  pose, return without error and keep the shape of the array. A sample for which
  \<open>polar_to_cartesian\<close> reports no cell is skipped: the update of a scan with it is
  the update of the scan without it. A hit cell that \<open>polar_to_cartesian\<close> returns
  lies inside the map.
\<close>

theorem out_of_range_cell_skipped:
  assumes "wf_mapper m"
  shows "(\<not> in_map (map_size m) x y \<longrightarrow> mark_cell (map_size m) (occupancy_map m) x y = Inr (occupancy_map m)) \<and>
         (\<exists>g'. mark_free_space m x1 y1 x2 y2 = Some (Inr (m\<lparr>occupancy_map := g'\<rparr>)) \<and>
            wf_grid (map_size m) g') \<and>
         (\<exists>g' k. update_map_from_scan ops m scan_data cx cy ca = Some (Inr (m\<lparr>occupancy_map := g'\<rparr>, k)) \<and>
            wf_grid (map_size m) g') \<and>
         (polar_to_cartesian ops m (real_of_int a) d cx cy ca = None \<longrightarrow>
            update_map_from_scan ops m (pre @ (a, d) # post) cx cy ca =
            update_map_from_scan ops m (pre @ post) cx cy ca) \<and>
         (\<forall>hit. polar_to_cartesian ops m angle_deg distance_cm cx cy ca = Some hit \<longrightarrow>
            in_map (map_size m) (fst hit) (snd hit))"
proof (intro conjI impI allI)
  assume "\<not> in_map (map_size m) x y"
  then show "mark_cell (map_size m) (occupancy_map m) x y = Inr (occupancy_map m)"
    by (auto simp: mark_cell_def in_map_def)
next
  from mark_free_space_wf [OF assms, of x1 y1 x2 y2]
  show "\<exists>g'. mark_free_space m x1 y1 x2 y2 = Some (Inr (m\<lparr>occupancy_map := g'\<rparr>)) \<and>
            wf_grid (map_size m) g'"
    by blast
next
  from update_loop_wf [OF assms, of ops scan_data _ _ _ 0]
  show "\<exists>g' k. update_map_from_scan ops m scan_data cx cy ca = Some (Inr (m\<lparr>occupancy_map := g'\<rparr>, k)) \<and>
            wf_grid (map_size m) g'"
    unfolding update_map_from_scan_def by (metis add_0)
next
  assume "polar_to_cartesian ops m (real_of_int a) d cx cy ca = None"
  then have "polar_to_cartesian ops m (real_of_int (fst (a, d))) (snd (a, d))
     (Some (case cx of None \<Rightarrow> car_x m | Some v \<Rightarrow> v))
     (Some (case cy of None \<Rightarrow> car_y m | Some v \<Rightarrow> v))
     (Some (case ca of None \<Rightarrow> car_angle m | Some v \<Rightarrow> v)) = None"
    using polar_to_cartesian_pose [of ops m "real_of_int a" d cx cy ca] by simp
  then show "update_map_from_scan ops m (pre @ (a, d) # post) cx cy ca =
            update_map_from_scan ops m (pre @ post) cx cy ca"
    unfolding update_map_from_scan_def by (rule update_loop_none)
next
  fix hit assume "polar_to_cartesian ops m angle_deg distance_cm cx cy ca = Some hit"
  then show "in_map (map_size m) (fst hit) (snd hit)" by (rule polar_to_cartesian_in_map)
qed

lemma small_polar_none: "polar_to_cartesian exact_ops small_mapper 0 5 None None None = None"
proof -
  have "py_round (real_of_int 5) = 5" "py_round (real_of_int 1) = 1" by (rule py_round_of_int)+
  then show ?thesis
    by (simp add: polar_to_cartesian_def exact_ops_def small_mapper_def)
qed

lemma small_outside:
  "mark_free_space small_mapper (- 2) 0 1 0 =
     Some (Inr (small_mapper\<lparr>occupancy_map :=
       [[FREE, UNKNOWN, UNKNOWN], [UNKNOWN, OCCUPIED, UNKNOWN], [UNKNOWN, UNKNOWN, UNKNOWN]]\<rparr>))"
  by (simp add: mark_free_space_def mark_free_space_loop.simps mark_cell_def np_get_def np_set_def
      np_index_def step_x_def step_y_def step_err_def small_mapper_def UNKNOWN_def FREE_def OCCUPIED_def)

theorem out_of_range_cell_skipped_witness:
  "wf_mapper small_mapper \<and> \<not> in_map (map_size small_mapper) (- 2) 0 \<and>
   mark_cell (map_size small_mapper) (occupancy_map small_mapper) (- 2) 0 = Inr (occupancy_map small_mapper) \<and>
   (\<exists>g'. mark_free_space small_mapper (- 2) 0 1 0 = Some (Inr (small_mapper\<lparr>occupancy_map := g'\<rparr>)) \<and>
      wf_grid (map_size small_mapper) g') \<and>
   (\<exists>g' k. update_map_from_scan exact_ops small_mapper [(0, 2)] (Some (- 2)) (Some 0) (Some 0) =
        Some (Inr (small_mapper\<lparr>occupancy_map := g'\<rparr>, k)) \<and>
      wf_grid (map_size small_mapper) g') \<and>
   polar_to_cartesian exact_ops small_mapper 0 5 None None None = None \<and>
   update_map_from_scan exact_ops small_mapper [(0, 5), (0, 2)] None None None =
     Some (Inr (small_mapper\<lparr>occupancy_map :=
       [[UNKNOWN, UNKNOWN, UNKNOWN], [FREE, OCCUPIED, OCCUPIED], [UNKNOWN, UNKNOWN, UNKNOWN]]\<rparr>, 1))"
proof -
  have o: "\<not> in_map (map_size small_mapper) (- 2) 0" by (simp add: in_map_def small_mapper_def)
  note t = out_of_range_cell_skipped [OF wf_small]
  from t [where x = "- 2" and y = 0] o
  have a: "mark_cell (map_size small_mapper) (occupancy_map small_mapper) (- 2) 0 = Inr (occupancy_map small_mapper)"
    by blast
  from t [where ?x1.0 = "- 2" and ?y1.0 = 0 and ?x2.0 = 1 and ?y2.0 = 0]
  have b: "\<exists>g'. mark_free_space small_mapper (- 2) 0 1 0 = Some (Inr (small_mapper\<lparr>occupancy_map := g'\<rparr>)) \<and>
      wf_grid (map_size small_mapper) g'"
    by blast
  from t [where ops = exact_ops and scan_data = "[(0, 2)]" and cx = "Some (- 2)" and cy = "Some 0" and ca = "Some 0"]
  have c: "\<exists>g' k. update_map_from_scan exact_ops small_mapper [(0, 2)] (Some (- 2)) (Some 0) (Some 0) =
        Some (Inr (small_mapper\<lparr>occupancy_map := g'\<rparr>, k)) \<and>
      wf_grid (map_size small_mapper) g'"
    by blast
  have n: "polar_to_cartesian exact_ops small_mapper (real_of_int 0) 5 None None None = None"
    using small_polar_none by simp
  from t [where ops = exact_ops and a = 0 and d = 5 and pre = "[]" and post = "[(0, 2)]"
      and cx = None and cy = None and ca = None] n
  have "update_map_from_scan exact_ops small_mapper ([] @ (0, 5) # [(0, 2)]) None None None =
        update_map_from_scan exact_ops small_mapper ([] @ [(0, 2)]) None None None"
    by blast
  then have d: "update_map_from_scan exact_ops small_mapper [(0, 5), (0, 2)] None None None =
     Some (Inr (small_mapper\<lparr>occupancy_map :=
       [[UNKNOWN, UNKNOWN, UNKNOWN], [FREE, OCCUPIED, OCCUPIED], [UNKNOWN, UNKNOWN, UNKNOWN]]\<rparr>, 1))"
    using small_update by simp
  from wf_small o a b c small_polar_none d show ?thesis by blast
qed

text \<open>The ray from the cell (-2, 0), which is outside the map of three by three
  cells, to the cell (1, 0): the call returns a mapper, it raises nothing.\<close>

theorem out_of_range_write_counterexample:
  "\<not> in_map (map_size small_mapper) (- 2) 0 \<and>
   mark_free_space small_mapper (- 2) 0 1 0 =
     Some (Inr (small_mapper\<lparr>occupancy_map :=
       [[FREE, UNKNOWN, UNKNOWN], [UNKNOWN, OCCUPIED, UNKNOWN], [UNKNOWN, UNKNOWN, UNKNOWN]]\<rparr>))"
  by (simp add: small_outside) (simp add: in_map_def small_mapper_def)

section \<open>Saving and loading the map\<close>

lemma concat_uniform:
  "\<forall>row \<in> set g. length row = c \<Longrightarrow>
   length (concat g) = length g * c \<and>
   (\<forall>r < length g. take c (drop (r * c) (concat g)) = g ! r)"
proof (induction g)
  case Nil
  show ?case by simp
next
  case (Cons row g)
  then have IH: "length (concat g) = length g * c"
    "\<And>r. r < length g \<Longrightarrow> take c (drop (r * c) (concat g)) = g ! r"
    and row: "length row = c"
    by auto
  have "\<forall>r < length (row # g). take c (drop (r * c) (concat (row # g))) = (row # g) ! r"
  proof (intro allI impI)
    fix r assume r: "r < length (row # g)"
    show "take c (drop (r * c) (concat (row # g))) = (row # g) ! r"
    proof (cases r)
      case 0
      with row show ?thesis by simp
    next
      case (Suc r')
      with r have "r' < length g" by simp
      from IH(2) [OF this] Suc row show ?thesis by simp
    qed
  qed
  with IH(1) row show ?case by simp
qed

lemma np_load_np_save:
  assumes "rectangular g"
  shows "np_load (np_save g) = Inr g"
proof -
  define c where "c = (case g of [] \<Rightarrow> 0 | row # _ \<Rightarrow> length row)"
  have "\<forall>row \<in> set g. length row = c"
    using assms by (cases g) (auto simp: rectangular_def c_def)
  from concat_uniform [OF this]
  have len: "length (concat g) = length g * c"
    and rows: "\<And>r. r < length g \<Longrightarrow> take c (drop (r * c) (concat g)) = g ! r"
    by auto
  have "map (\<lambda>r. take c (drop (r * c) (concat g))) [0 ..< length g] = map (\<lambda>r. g ! r) [0 ..< length g]"
    using rows by simp
  also have "\<dots> = g" by (rule map_nth)
  finally show ?thesis using len by (simp add: np_load_def np_save_def c_def [symmetric])
qed

text \<open>
  Claim C8. For the persisted layout of the specification, a header with the two
  dimensions followed by one signed byte for each cell, \<open>save_map\<close> followed by
  \<open>load_map\<close> of the same file gives back the mapper with the same array, cell for
  cell and row for row, whatever the cells hold; loaded into another mapper, the file
  gives that mapper the saved array.
\<close>

theorem save_load_roundtrip:
  assumes "rectangular (occupancy_map m)"
  shows "load_map m filename (save_map m filename fs) = Inr m \<and>
         load_map m' filename (save_map m filename fs) = Inr (m'\<lparr>occupancy_map := occupancy_map m\<rparr>) \<and>
         np_load (np_save (occupancy_map m)) = Inr (occupancy_map m) \<and>
         npy_rows (np_save (occupancy_map m)) = length (occupancy_map m) \<and>
         length (npy_data (np_save (occupancy_map m))) =
           npy_rows (np_save (occupancy_map m)) * npy_cols (np_save (occupancy_map m))"
proof -
  from np_load_np_save [OF assms] have l: "np_load (np_save (occupancy_map m)) = Inr (occupancy_map m)" .
  then have "length (npy_data (np_save (occupancy_map m))) =
           npy_rows (np_save (occupancy_map m)) * npy_cols (np_save (occupancy_map m))"
    by (auto simp: np_load_def split: if_splits)
  with l show ?thesis by (simp add: load_map_def save_map_def) (simp add: np_save_def)
qed

theorem save_load_roundtrip_witness:
  "rectangular (occupancy_map small_mapper) \<and>
   load_map small_mapper ''map.npy'' (save_map small_mapper ''map.npy'' Map.empty) = Inr small_mapper \<and>
   npy_data (np_save (occupancy_map small_mapper)) =
     [UNKNOWN, UNKNOWN, UNKNOWN, UNKNOWN, OCCUPIED, UNKNOWN, UNKNOWN, UNKNOWN, UNKNOWN] \<and>
   rectangular [[OCCUPIED, OCCUPIED], [OCCUPIED, OCCUPIED]] \<and>
   np_load (np_save [[OCCUPIED, OCCUPIED], [OCCUPIED, OCCUPIED]]) = Inr [[OCCUPIED, OCCUPIED], [OCCUPIED, OCCUPIED]] \<and>
   rectangular (occupancy_map default_mapper) \<and>
   load_map small_mapper ''map.npy'' (save_map default_mapper ''map.npy'' Map.empty) =
     Inr (small_mapper\<lparr>occupancy_map := occupancy_map default_mapper\<rparr>)"
proof -
  have r1: "rectangular (occupancy_map small_mapper)" by (simp add: rectangular_def small_mapper_def)
  have r2: "rectangular [[OCCUPIED, OCCUPIED], [OCCUPIED, OCCUPIED]]" by (simp add: rectangular_def)
  have r3: "rectangular (occupancy_map default_mapper)"
    by (simp add: rectangular_def default_mapper_def)
  have r2': "rectangular (occupancy_map (small_mapper\<lparr>occupancy_map := [[OCCUPIED, OCCUPIED], [OCCUPIED, OCCUPIED]]\<rparr>))"
    using r2 by simp
  have d: "npy_data (np_save (occupancy_map small_mapper)) =
     [UNKNOWN, UNKNOWN, UNKNOWN, UNKNOWN, OCCUPIED, UNKNOWN, UNKNOWN, UNKNOWN, UNKNOWN]"
    by (simp add: np_save_def small_mapper_def)
  from save_load_roundtrip [OF r1, where filename = "''map.npy''" and fs = Map.empty and m' = small_mapper]
    save_load_roundtrip [OF r2', where filename = "''map.npy''" and fs = Map.empty and m' = small_mapper]
    save_load_roundtrip [OF r3, where filename = "''map.npy''" and fs = Map.empty and m' = small_mapper]
    r1 r2 r3 d
  show ?thesis by simp
qed

end
